theory Spec2Isabelle
  imports Main
begin

section \<open>microshell.c: the lexer, the chain builder and the executor\<close>

text \<open>
  The development follows \<^verbatim>\<open>src/microshell.c\<close> function by function.
  Pointers into the three arrays that \<^verbatim>\<open>main\<close> allocates (\<^verbatim>\<open>argBuffer\<close>,
  \<^verbatim>\<open>argList\<close>, \<^verbatim>\<open>commands\<close>) are indices; the null pointer is \<open>None\<close>.
  A C string is the run of characters up to the first NUL; the input line is a
  \<open>string\<close> whose end stands for the terminating NUL (an embedded NUL ends it
  as well). Counters that the code keeps in \<^verbatim>\<open>int\<close> and only ever increments from
  zero, bounded by the 256-byte line, are \<open>nat\<close>.
\<close>

subsection \<open>Constants and macros (lines 23--42)\<close>

definition MAX_INPUT_LEN :: nat where
  "MAX_INPUT_LEN = 256"

definition NUL :: char where
  "NUL = CHR 0x00"

definition ISWHITESPACE :: "char \<Rightarrow> bool" where
  "ISWHITESPACE c = (c = CHR '' '' \<or> c = CHR 0x09 \<or> c = CHR 0x0A)"

definition ISCONTROLCHAR :: "char \<Rightarrow> bool" where
  "ISCONTROLCHAR c =
     (c = CHR '';'' \<or> c = CHR ''&'' \<or> c = CHR ''|'' \<or> c = CHR ''<'' \<or> c = CHR ''>'')"

datatype stop_reason =
    SR_DONE | SR_ERROR | SR_SEQ_CHAIN | SR_SEQ_AND | SR_SEQ_OR | SR_PIPE
  | SR_REDIRECT_IN | SR_REDIRECT_IN_HERE | SR_REDIRECT_OUT | SR_REDIRECT_OUT_APPEND
  | SR_BACKGROUND

subsection \<open>Memory shared between the lexer and the builder\<close>

text \<open>
  \<^verbatim>\<open>argBuffer\<close> is an array of characters and \<^verbatim>\<open>argList\<close> an array of pointers into
  it. \<open>memcpy_at\<close> is \<^verbatim>\<open>memcpy(buf + a, xs, len)\<close>; \<open>cstr\<close> reads the C string that
  starts at an address, inside the \<open>MAX_INPUT_LEN\<close> bytes of the buffer.
\<close>

definition memcpy_at :: "nat \<Rightarrow> string \<Rightarrow> (nat \<Rightarrow> char) \<Rightarrow> (nat \<Rightarrow> char)" where
  "memcpy_at a xs m = (\<lambda>i. if a \<le> i \<and> i < a + length xs then xs ! (i - a) else m i)"

definition cstr :: "(nat \<Rightarrow> char) \<Rightarrow> nat \<Rightarrow> string" where
  "cstr m a = takeWhile (\<lambda>c. c \<noteq> NUL) (map m [a ..< MAX_INPUT_LEN])"

subsection \<open>The lexer: \<^verbatim>\<open>processArgs\<close> (lines 119--232)\<close>

text \<open>
  The locals of \<^verbatim>\<open>processArgs\<close> and the cells it writes through its pointer
  parameters. \<open>curArg\<close> holds the first \<^verbatim>\<open>curArgLen\<close> bytes of the local array, so
  \<^verbatim>\<open>curArgLen\<close> is \<open>length (curArg s)\<close>. \<open>outCount\<close>, \<open>outStop\<close>, \<open>outBuffer\<close>
  and \<open>outList\<close> are \<^verbatim>\<open>*argCount\<close>, \<^verbatim>\<open>*stopReason\<close> and the two arrays. The
  cursor \<^verbatim>\<open>c\<close> is the remaining input, passed beside the state.
\<close>

record lexer =
  escaped :: bool
  quoted :: bool
  quoteChar :: char
  processed :: nat
  curArg :: string
  argsOffset :: nat
  outCount :: nat
  outStop :: stop_reason
  outBuffer :: "nat \<Rightarrow> char"
  outList :: "nat \<Rightarrow> nat option"

text \<open>
  Lines 168--211, entered with the cursor on the first character that is not
  whitespace: the operator found there and how many extra characters it makes
  \<^verbatim>\<open>processed\<close> count, or \<open>None\<close> when the character is no operator (the code
  then steps the cursor back and goes on scanning). \<^verbatim>\<open>*(c+1)\<close> at the end of the
  line reads the terminating NUL.
\<close>

fun classify :: "string \<Rightarrow> (stop_reason \<times> nat) option" where
  "classify [] = None"
| "classify (c # cs) =
     (let d = (case cs of [] \<Rightarrow> NUL | x # _ \<Rightarrow> x) in
      if c = CHR '';'' then Some (SR_SEQ_CHAIN, 0)
      else if c = CHR ''|'' \<and> d = CHR ''|'' then Some (SR_SEQ_OR, 1)
      else if c = CHR ''|'' then Some (SR_PIPE, 0)
      else if c = CHR ''&'' \<and> d = CHR ''&'' then Some (SR_SEQ_AND, 1)
      else if c = CHR ''&'' then Some (SR_BACKGROUND, 0)
      else if c = CHR ''>'' \<and> d = CHR ''>'' then Some (SR_REDIRECT_OUT_APPEND, 1)
      else if c = CHR ''>'' then Some (SR_REDIRECT_OUT, 0)
      else if c = CHR ''<'' \<and> d = CHR ''<'' then Some (SR_REDIRECT_IN_HERE, 1)
      else if c = CHR ''<'' then Some (SR_REDIRECT_IN, 0)
      else None)"

text \<open>
  Lines 157--161: the finished argument is copied to the buffer (no terminator is
  written; the next argument starts one byte further, and that byte is whatever
  the buffer held), its address is stored in the list, and \<^verbatim>\<open>curArg\<close> is cleared.
  \<open>bb\<close> and \<open>lb\<close> are the addresses the caller passed for the two arrays.
\<close>

definition flush :: "nat \<Rightarrow> nat \<Rightarrow> lexer \<Rightarrow> lexer" where
  "flush bb lb s =
     s\<lparr>outBuffer := memcpy_at (bb + argsOffset s) (curArg s) (outBuffer s),
       outList := (outList s)(lb + outCount s := Some (bb + argsOffset s)),
       outCount := outCount s + 1,
       argsOffset := argsOffset s + (length (curArg s) + 1),
       curArg := []\<rparr>"

text \<open>The \<^verbatim>\<open>while(1)\<close> loop, one character per call unless whitespace is skipped.\<close>

function scan :: "nat \<Rightarrow> nat \<Rightarrow> lexer \<Rightarrow> string \<Rightarrow> lexer" where
  "scan bb lb s [] = s\<lparr>outStop := SR_DONE\<rparr>"
| "scan bb lb s (c # cs) =
     (if c = NUL then s\<lparr>outStop := SR_DONE\<rparr>
      else if c = CHR 0x5C \<and> \<not> escaped s then
        scan bb lb (s\<lparr>escaped := True, processed := processed s + 1\<rparr>) cs
      else if (c = CHR 0x27 \<or> c = CHR 0x22) \<and> \<not> escaped s then
        scan bb lb
          ((if \<not> quoted s then s\<lparr>quoteChar := c, quoted := True\<rparr>
            else if c = quoteChar s then s\<lparr>quoted := False, quoteChar := NUL\<rparr>
            else s)\<lparr>processed := processed s + 1\<rparr>) cs
      else if (ISWHITESPACE c \<or> ISCONTROLCHAR c) \<and> \<not> (escaped s \<or> quoted s) then
        (if curArg s \<noteq> [] then
           (let s1 = (flush bb lb s)
                  \<lparr>processed := processed s + length (takeWhile ISWHITESPACE (c # cs))\<rparr>;
                rest = dropWhile ISWHITESPACE (c # cs)
            in case classify rest of
                 Some (r, extra) \<Rightarrow> s1\<lparr>outStop := r, processed := processed s1 + extra\<rparr>
               | None \<Rightarrow> scan bb lb s1 rest)
         else if ISCONTROLCHAR c then s\<lparr>outStop := SR_ERROR\<rparr>
         else scan bb lb (s\<lparr>processed := processed s + 1\<rparr>) cs)
      else
        scan bb lb (s\<lparr>curArg := curArg s @ [c], escaped := False,
                      processed := processed s + 1\<rparr>) cs)"
  by pat_completeness auto

lemma classify_control: "ISCONTROLCHAR c \<Longrightarrow> classify (c # cs) \<noteq> None"
  by (auto simp: ISCONTROLCHAR_def Let_def)

lemma dropWhile_ws_shorter:
  assumes "ISWHITESPACE c \<or> ISCONTROLCHAR c"
    and "classify (dropWhile ISWHITESPACE (c # cs)) = None"
  shows "length (dropWhile ISWHITESPACE (c # cs)) < Suc (length cs)"
proof (cases "ISWHITESPACE c")
  case True
  then show ?thesis
    by (simp add: length_dropWhile_le le_imp_less_Suc)
next
  case False
  with assms(1) have "ISCONTROLCHAR c" by simp
  with assms(2) False show ?thesis
    using classify_control [of c cs] by simp
qed

termination scan
proof (relation "measure (\<lambda>(bb, lb, s, cs). length cs)", goal_cases)
  case 1
  show ?case by simp
next
  case 2
  then show ?case by simp
next
  case 3
  then show ?case by simp
next
  case (4 bb lb s c cs x xa)
  then show ?case
    using dropWhile_ws_shorter [of c cs] by simp
next
  case 5
  then show ?case by simp
next
  case 6
  then show ?case by simp
qed

text \<open>
  \<^verbatim>\<open>processArgs\<close> itself: the initial locals (\<^verbatim>\<open>*stopReason\<close> holds whatever
  the caller left there until the loop ends; every exit of the loop assigns it),
  the loop, and lines 228--231. The result record carries what the function returns (\<open>processed\<close>) and what it
  leaves behind its pointer parameters; \<^verbatim>\<open>*argChars\<close> is \<open>argsOffset\<close>.
\<close>

definition lexer_init :: "(nat \<Rightarrow> char) \<Rightarrow> (nat \<Rightarrow> nat option) \<Rightarrow> lexer" where
  "lexer_init buf lst =
     \<lparr>escaped = False, quoted = False, quoteChar = NUL, processed = 0,
      curArg = [], argsOffset = 0, outCount = 0, outStop = SR_DONE,
      outBuffer = buf, outList = lst\<rparr>"

definition processArgs ::
  "string \<Rightarrow> nat \<Rightarrow> (nat \<Rightarrow> char) \<Rightarrow> nat \<Rightarrow> (nat \<Rightarrow> nat option) \<Rightarrow> lexer" where
  "processArgs input bb buf lb lst =
     (let s = scan bb lb (lexer_init buf lst) input
      in s\<lparr>processed := processed s + 1\<rparr>)"

text \<open>The arguments a call left in memory, read back as C strings.\<close>

definition args_of :: "lexer \<Rightarrow> nat \<Rightarrow> string list" where
  "args_of s lb =
     map (\<lambda>i. case outList s (lb + i) of None \<Rightarrow> [] | Some a \<Rightarrow> cstr (outBuffer s) a)
       [0 ..< outCount s]"

subsection \<open>Command nodes (lines 49--58)\<close>

text \<open>
  \<open>argList\<close> is the address, in the array of argument pointers, where the node's
  argument vector starts; \<open>nextCom\<close> is the field \<^verbatim>\<open>next\<close>. The four flags only ever
  hold 0 or 1.
\<close>

record command_t =
  argList :: nat
  fdIn :: int
  fdOut :: int
  stopOnFailure :: bool
  stopOnSuccess :: bool
  piped :: bool
  background :: bool
  nextCom :: "nat option"

subsection \<open>The chain builder: \<^verbatim>\<open>buildCommandChains\<close> (lines 244--362)\<close>

text \<open>
  \<^verbatim>\<open>getFd\<close> points at the \<^verbatim>\<open>fdIn\<close> or the \<^verbatim>\<open>fdOut\<close> field of a node: a node index
  and a field. \<open>oflag\<close> names the three flag words the code passes to \<^verbatim>\<open>open\<close>;
  the initial \<^verbatim>\<open>oflags = 0\<close> is \<^verbatim>\<open>O_RDONLY\<close>. \<open>diag\<close> are the three messages the
  builder prints on the error stream.
\<close>

datatype fd_field = FdIn | FdOut

datatype oflag = O_RDONLY | O_WRONLY_CREAT_TRUNC | O_WRONLY_CREAT_APPEND

datatype diag =
    Unrecognized_command_input
  | Error_reading_filename_for_redirect
  | Error_opening_file_for_redirect string

text \<open>
  The locals of \<^verbatim>\<open>buildCommandChains\<close>, the arrays it fills, and two traces of
  its effects: \<open>opens\<close> counts the calls of \<^verbatim>\<open>open\<close> made so far and \<open>errs\<close> is
  what has been printed. \<open>chains\<close> holds the nodes written so far, in array
  order; \<^verbatim>\<open>chains + commandCount++\<close> is the next free slot, and every field of the
  slot is assigned when the node is created. \<^verbatim>\<open>com\<close> and \<^verbatim>\<open>stopReason\<close> start
  uninitialised: \<open>None\<close> for the pointer, and a value that the first lexer call
  overwrites for the stop reason.
\<close>

record builder =
  argCount :: nat
  argTotal :: nat
  argChars :: nat
  argCharsTotal :: nat
  inputPos :: nat
  stopReason :: stop_reason
  chainCount :: nat
  commandCount :: nat
  continueLast :: bool
  getFd :: "(nat \<times> fd_field) option"
  oflags :: oflag
  com :: "nat option"
  lastCom :: "nat option"
  chains :: "command_t list"
  argBuffer :: "nat \<Rightarrow> char"
  argListMem :: "nat \<Rightarrow> nat option"
  opens :: nat
  errs :: "diag list"

definition builder_init :: "(nat \<Rightarrow> char) \<Rightarrow> (nat \<Rightarrow> nat option) \<Rightarrow> builder" where
  "builder_init buf lst =
     \<lparr>argCount = 0, argTotal = 0, argChars = 0, argCharsTotal = 0, inputPos = 0,
      stopReason = SR_DONE, chainCount = 0, commandCount = 0, continueLast = False,
      getFd = None, oflags = O_RDONLY, com = None, lastCom = None, chains = [],
      argBuffer = buf, argListMem = lst, opens = 0, errs = []\<rparr>"

text \<open>
  Lines 260--261 and 282--283, the same call in both modes: the lexer runs on the
  input from \<^verbatim>\<open>inputPos\<close>, writes into the arrays from \<^verbatim>\<open>argCharsTotal\<close> and
  \<^verbatim>\<open>argTotal\<close>, and leaves \<^verbatim>\<open>argChars\<close>, \<^verbatim>\<open>argCount\<close> and \<^verbatim>\<open>stopReason\<close>.
\<close>

definition call_lexer :: "string \<Rightarrow> builder \<Rightarrow> builder" where
  "call_lexer input st =
     (let r = processArgs (drop (inputPos st) input)
                (argCharsTotal st) (argBuffer st) (argTotal st) (argListMem st)
      in st\<lparr>inputPos := inputPos st + processed r,
            argChars := argsOffset r,
            argCount := outCount r,
            stopReason := outStop r,
            argBuffer := outBuffer r,
            argListMem := outList r\<rparr>)"

text \<open>Lines 295--307: a fresh node in the next slot, linked behind \<^verbatim>\<open>lastCom\<close>.\<close>

definition new_command :: "builder \<Rightarrow> builder" where
  "new_command st =
     (let i = commandCount st;
          node = \<lparr>argList = argTotal st, fdIn = 0, fdOut = 1,
                  stopOnFailure = False, stopOnSuccess = False, piped = False,
                  background = False, nextCom = None\<rparr>;
          cs = chains st @ [node]
      in st\<lparr>commandCount := i + 1,
            com := Some i,
            chains := (case lastCom st of
                         None \<Rightarrow> cs
                       | Some l \<Rightarrow> cs[l := (cs ! l)\<lparr>nextCom := Some i\<rparr>])\<rparr>)"

text \<open>
  An assignment through \<^verbatim>\<open>com\<close>. The pointer is uninitialised until the first
  node is created; using it before is a fault of the run, \<open>None\<close>.
\<close>

definition with_com :: "(nat \<Rightarrow> builder \<Rightarrow> builder) \<Rightarrow> builder \<Rightarrow> builder option" where
  "with_com f st = (case com st of None \<Rightarrow> None | Some i \<Rightarrow> Some (f i st))"

definition set_node :: "nat \<Rightarrow> (command_t \<Rightarrow> command_t) \<Rightarrow> builder \<Rightarrow> builder" where
  "set_node i f st = st\<lparr>chains := (chains st)[i := f (chains st ! i)]\<rparr>"

text \<open>
  The \<^verbatim>\<open>switch\<close> of lines 315--356. \<open>SR_REDIRECT_IN_HERE\<close>, \<open>SR_DONE\<close> and
  \<open>SR_ERROR\<close> have no case of their own and take the \<^verbatim>\<open>default\<close> label, which
  \<open>SR_SEQ_CHAIN\<close> shares.
\<close>

definition react :: "builder \<Rightarrow> builder option" where
  "react st =
     (case stopReason st of
        SR_SEQ_AND \<Rightarrow>
          with_com (\<lambda>i s. (set_node i (\<lambda>n. n\<lparr>stopOnFailure := True\<rparr>) s)\<lparr>lastCom := Some i\<rparr>) st
      | SR_SEQ_OR \<Rightarrow>
          with_com (\<lambda>i s. (set_node i (\<lambda>n. n\<lparr>stopOnSuccess := True\<rparr>) s)\<lparr>lastCom := Some i\<rparr>) st
      | SR_PIPE \<Rightarrow>
          with_com (\<lambda>i s. (set_node i (\<lambda>n. n\<lparr>piped := True, stopOnFailure := True\<rparr>) s)
                             \<lparr>lastCom := Some i\<rparr>) st
      | SR_REDIRECT_IN \<Rightarrow>
          with_com (\<lambda>i s. s\<lparr>getFd := Some (i, FdIn), oflags := O_RDONLY\<rparr>) st
      | SR_REDIRECT_OUT \<Rightarrow>
          with_com (\<lambda>i s. s\<lparr>getFd := Some (i, FdOut), oflags := O_WRONLY_CREAT_TRUNC\<rparr>) st
      | SR_REDIRECT_OUT_APPEND \<Rightarrow>
          with_com (\<lambda>i s. s\<lparr>getFd := Some (i, FdOut), oflags := O_WRONLY_CREAT_APPEND\<rparr>) st
      | SR_BACKGROUND \<Rightarrow>
          with_com (\<lambda>i s. (set_node i (\<lambda>n. n\<lparr>background := True\<rparr>) s)\<lparr>continueLast := True\<rparr>) st
      | _ \<Rightarrow> Some (st\<lparr>chainCount := chainCount st + 1, lastCom := None\<rparr>))"

text \<open>\<^verbatim>\<open>*getFd = fd\<close>.\<close>

definition store_fd :: "nat \<times> fd_field \<Rightarrow> int \<Rightarrow> builder \<Rightarrow> builder" where
  "store_fd p fd st =
     (case p of
        (i, FdIn) \<Rightarrow> set_node i (\<lambda>n. n\<lparr>fdIn := fd\<rparr>) st
      | (i, FdOut) \<Rightarrow> set_node i (\<lambda>n. n\<lparr>fdOut := fd\<rparr>) st)"

text \<open>
  One pass through the body of the \<^verbatim>\<open>do\<close> loop (lines 259--356). Every
  \<^verbatim>\<open>continue\<close> of the body jumps to the loop test and so skips the rest of the
  body, the \<^verbatim>\<open>switch\<close> and, in redirection mode, the reset of \<^verbatim>\<open>getFd\<close>. The file
  system is the parameter \<open>openf\<close>: the descriptor, or a negative number, that the
  \<open>n\<close>-th call of \<^verbatim>\<open>open\<close> returns for a name and a flag word. The descriptor is
  stored through \<^verbatim>\<open>getFd\<close> before it is tested (line 272).
\<close>

definition iteration ::
  "(nat \<Rightarrow> string \<Rightarrow> oflag \<Rightarrow> int) \<Rightarrow> string \<Rightarrow> builder \<Rightarrow> builder option" where
  "iteration openf input st =
     (case getFd st of
        Some p \<Rightarrow>
          (let st1 = call_lexer input st in
           if stopReason st1 = SR_ERROR \<or> argCount st1 \<noteq> 1
           then Some (st1\<lparr>errs := errs st1 @ [Error_reading_filename_for_redirect]\<rparr>)
           else
             (let filename = (case argListMem st1 (argTotal st1) of
                                None \<Rightarrow> [] | Some a \<Rightarrow> cstr (argBuffer st1) a);
                  st2 = st1\<lparr>argCharsTotal := argCharsTotal st1 + argChars st1,
                            argTotal := argTotal st1 + (argCount st1 + 1)\<rparr>;
                  fd = openf (opens st2) filename (oflags st2);
                  st3 = (store_fd p fd st2)\<lparr>opens := opens st2 + 1\<rparr>
              in if fd < 0
                 then Some (st3\<lparr>errs := errs st3 @ [Error_opening_file_for_redirect filename]\<rparr>)
                 else react (st3\<lparr>getFd := None\<rparr>)))
      | None \<Rightarrow>
          (let st1 = call_lexer input st in
           if stopReason st1 = SR_ERROR \<and> \<not> continueLast st1
           then Some (st1\<lparr>errs := errs st1 @ [Unrecognized_command_input]\<rparr>)
           else if \<not> continueLast st1 \<and> argCount st1 = 0 then Some st1
           else
             (let st2 = (if \<not> continueLast st1 then new_command st1 else st1)
              in react (st2\<lparr>argCharsTotal := argCharsTotal st2 + argChars st2,
                            argTotal := argTotal st2 + (argCount st2 + 1),
                            continueLast := False\<rparr>))))"


lemma processArgs_progress: "0 < processed (processArgs input bb buf lb lst)"
  by (simp add: processArgs_def Let_def)

lemma processArgs_Nil: "outStop (processArgs [] bb buf lb lst) = SR_DONE"
  by (simp add: processArgs_def Let_def)

lemma call_lexer_progress:
  assumes "stopReason (call_lexer input st) \<noteq> SR_DONE"
  shows "inputPos st < length input" and "inputPos st < inputPos (call_lexer input st)"
proof -
  from assms have "drop (inputPos st) input \<noteq> []"
    using processArgs_Nil by (auto simp: call_lexer_def Let_def)
  then show "inputPos st < length input" by simp
  show "inputPos st < inputPos (call_lexer input st)"
    using processArgs_progress by (simp add: call_lexer_def Let_def)
qed

lemma react_keeps:
  assumes "react st = Some st'"
  shows "inputPos st' = inputPos st \<and> stopReason st' = stopReason st"
  using assms
  by (auto simp: react_def with_com_def set_node_def split: stop_reason.splits option.splits)

lemma store_fd_keeps:
  "inputPos (store_fd p fd st) = inputPos st" "stopReason (store_fd p fd st) = stopReason st"
  by (auto simp: store_fd_def set_node_def split: prod.splits fd_field.splits)

lemma new_command_keeps:
  "inputPos (new_command st) = inputPos st" "stopReason (new_command st) = stopReason st"
  by (auto simp: new_command_def Let_def)

lemma iteration_keeps:
  assumes "iteration openf input st = Some st'"
  shows "inputPos st' = inputPos (call_lexer input st)"
    and "stopReason st' = stopReason (call_lexer input st)"
  using assms
  by (auto simp: iteration_def Let_def store_fd_keeps new_command_keeps
           split: option.splits if_splits dest!: react_keeps)


text \<open>
  The \<^verbatim>\<open>do ... while(stopReason != SR_DONE)\<close> loop, and the function: the final
  state of the locals, or \<open>None\<close> when the run used \<^verbatim>\<open>com\<close> uninitialised. The
  function's return value is \<open>chainCount\<close> of that state, and \<open>chains\<close> is what
  it leaves in the array of commands.
\<close>

function buildLoop ::
  "(nat \<Rightarrow> string \<Rightarrow> oflag \<Rightarrow> int) \<Rightarrow> string \<Rightarrow> builder \<Rightarrow> builder option" where
  "buildLoop openf input st =
     (case iteration openf input st of
        None \<Rightarrow> None
      | Some st' \<Rightarrow>
          if stopReason st' \<noteq> SR_DONE then buildLoop openf input st' else Some st')"
  by pat_completeness auto

termination buildLoop
proof (relation "measure (\<lambda>(openf, input, st). length input - inputPos st)", goal_cases)
  case 1
  show ?case by simp
next
  case (2 openf input st st')
  then have "stopReason (call_lexer input st) \<noteq> SR_DONE"
    and "inputPos st' = inputPos (call_lexer input st)"
    by (simp_all add: iteration_keeps)
  then show ?case
    using call_lexer_progress [of input st] by simp
qed

definition buildCommandChains ::
  "(nat \<Rightarrow> string \<Rightarrow> oflag \<Rightarrow> int) \<Rightarrow> string \<Rightarrow> (nat \<Rightarrow> char) \<Rightarrow> (nat \<Rightarrow> nat option)
     \<Rightarrow> builder option" where
  "buildCommandChains openf input buf lst = buildLoop openf input (builder_init buf lst)"


subsection \<open>Processes\<close>

text \<open>
  What the operating system contributes to a run. \<open>wait_status w i\<close> is the status
  word that \<^verbatim>\<open>waitpid\<close> stores for the child that executes the program of node
  \<open>i\<close> (the child of line 440, including the case that \<^verbatim>\<open>execvp\<close> fails and the child
  exits with 1). \<open>fork_ok w site i\<close> tells whether the \<^verbatim>\<open>fork\<close> at one of the three
  call sites succeeds when made for node \<open>i\<close>. \<open>stack_garbage w i\<close> is the value that
  the uninitialised local \<^verbatim>\<open>allStatus\<close> holds when the chain at node \<open>i\<close> is
  executed.
\<close>

datatype fork_site = Fork_exec | Fork_right | Fork_left

record world =
  wait_status :: "nat \<Rightarrow> int"
  fork_ok :: "fork_site \<Rightarrow> nat \<Rightarrow> bool"
  stack_garbage :: "nat \<Rightarrow> int"

text \<open>
  The status word of \<^verbatim>\<open><sys/wait.h>\<close>, as Linux and the BSDs lay it out: a child that
  calls \<^verbatim>\<open>exit(n)\<close> leaves the low eight bits of \<open>n\<close> in bits 8 to 15, and
  \<^verbatim>\<open>WEXITSTATUS(s)\<close> is \<^verbatim>\<open>((s) & 0xff00) >> 8\<close>.
\<close>

definition W_EXITCODE :: "int \<Rightarrow> int" where
  "W_EXITCODE n = (n mod 256) * 256"

definition WEXITSTATUS :: "int \<Rightarrow> int" where
  "WEXITSTATUS s = (s div 256) mod 256"

text \<open>
  How a call ends: it returns a value, or the calling process ends through
  \<^verbatim>\<open>exit\<close> with a code, or it dereferences a null pointer (\<open>Fault\<close>). A run is the
  way it ends together with the nodes for which \<^verbatim>\<open>executeSingleCommand\<close> was
  called, in the calling process or in a child; the order of the list between the
  two sides of a pipe is not meaningful. A slot of the array of commands that the
  builder never wrote is all zero, so its \<^verbatim>\<open>argList\<close> is null; the model stops with
  \<open>Fault\<close> as soon as a walk reaches such a slot.
\<close>

datatype 'a ending = Fault | Exits int | Returns 'a

type_synonym 'a run = "'a ending \<times> nat list"

text \<open>The node behind a pointer into the array of commands.\<close>

definition node_at :: "command_t list \<Rightarrow> nat \<Rightarrow> command_t option" where
  "node_at cs i = (if i < length cs then Some (cs ! i) else None)"

text \<open>The exit code of a child process that runs \<^verbatim>\<open>exit(f(...))\<close>.\<close>

fun child_code :: "int ending \<Rightarrow> int option" where
  "child_code Fault = None"
| "child_code (Exits c) = Some c"
| "child_code (Returns v) = Some v"

subsection \<open>The process launcher: \<^verbatim>\<open>executeSingleCommand\<close> (lines 428--472)\<close>

text \<open>
  \<open>buf\<close> and \<open>lst\<close> are the two argument arrays as the builder left them. The
  child's side of the \<^verbatim>\<open>fork\<close> is inside \<open>wait_status\<close>.
\<close>

definition executeSingleCommand ::
  "world \<Rightarrow> (nat \<Rightarrow> char) \<Rightarrow> (nat \<Rightarrow> nat option) \<Rightarrow> command_t list \<Rightarrow> nat \<Rightarrow> int run" where
  "executeSingleCommand w buf lst cs i =
     (case node_at cs i of
        None \<Rightarrow> (Fault, [i])
      | Some n \<Rightarrow>
          (case lst (argList n) of
             None \<Rightarrow> (Fault, [i])
           | Some a \<Rightarrow>
               if cstr buf a = ''exit'' then (Exits 0, [i])
               else if \<not> fork_ok w Fork_exec i then (Exits 1, [i])
               else (Returns (WEXITSTATUS (wait_status w i)), [i])))"

subsection \<open>The pipeline launcher: \<^verbatim>\<open>executePipedCommands\<close> (lines 482--533)\<close>

text \<open>
  Lines 523--529 in the parent, given the codes with which the two children
  exit: each status word is decoded once, and the right one a second time.
\<close>

definition pipe_status :: "int \<Rightarrow> int \<Rightarrow> int" where
  "pipe_status leftCode rightCode =
     (let childExitStatus = WEXITSTATUS (W_EXITCODE rightCode);
          exitStatus = WEXITSTATUS (W_EXITCODE leftCode)
      in exitStatus + WEXITSTATUS childExitStatus)"

text \<open>
  The recursion follows \<^verbatim>\<open>next\<close> pointers, which nothing in this function bounds,
  so the function is partial: \<open>None\<close> is a run that does not return. A fault in a
  child process is passed on as a fault of the whole run.
\<close>

partial_function (option) executePipedCommands ::
  "world \<Rightarrow> (nat \<Rightarrow> char) \<Rightarrow> (nat \<Rightarrow> nat option) \<Rightarrow> command_t list \<Rightarrow> nat \<Rightarrow> nat option
     \<Rightarrow> int run option" where
  "executePipedCommands w buf lst cs left right =
     (case node_at cs left of
        None \<Rightarrow> Some (Fault, [])
      | Some l \<Rightarrow>
          (case right of
             None \<Rightarrow> Some (executeSingleCommand w buf lst cs left)
           | Some r \<Rightarrow>
               if \<not> piped l then Some (executeSingleCommand w buf lst cs left)
               else if \<not> fork_ok w Fork_right r then Some (Exits 1, [])
               else
                 (case node_at cs r of
                    None \<Rightarrow> Some (Fault, [])
                  | Some rn \<Rightarrow>
                      Option.bind (executePipedCommands w buf lst cs r (nextCom rn))
                        (\<lambda>rightRun.
                           if \<not> fork_ok w Fork_left left then Some (Exits 1, snd rightRun)
                           else
                             (let leftRun = executeSingleCommand w buf lst cs left;
                                  launched = snd leftRun @ snd rightRun
                              in case (child_code (fst leftRun), child_code (fst rightRun)) of
                                   (Some lc, Some rc) \<Rightarrow>
                                     Some (Returns (pipe_status lc rc), launched)
                                 | _ \<Rightarrow> Some (Fault, launched))))))"

declare executePipedCommands.simps [code]

subsection \<open>The chain executor: \<^verbatim>\<open>executeCommandChain\<close> (lines 372--419)\<close>

text \<open>
  The locals. \<open>count\<close> is \<^verbatim>\<open>*commandCount\<close>. \<^verbatim>\<open>commandCount\<close> itself is the address
  of the caller's counter and never null, so the two assignments guarded by
  \<^verbatim>\<open>!commandCount\<close> (lines 385 and 396) never run, and \<^verbatim>\<open>allStatus\<close> is read before
  anything is assigned to it. The three \<^verbatim>\<open>int\<close> locals are unbounded integers here;
  no statement below depends on a sum or product that leaves the range of
  \<^verbatim>\<open>int\<close>.
\<close>

record walker =
  chain :: "nat option"
  stopped :: int
  status :: int
  allStatus :: int
  count :: nat
  launched :: "nat list"

text \<open>The inner loop of lines 389--392, from a node already known to exist.\<close>

partial_function (option) skip_piped ::
  "command_t list \<Rightarrow> nat \<Rightarrow> nat \<Rightarrow> (nat \<times> nat) ending option" where
  "skip_piped cs c k =
     (case node_at cs c of
        None \<Rightarrow> Some Fault
      | Some n \<Rightarrow>
          if piped n then
            (case nextCom n of
               None \<Rightarrow> Some Fault
             | Some c' \<Rightarrow> skip_piped cs c' (k + 1))
          else Some (Returns (c, k)))"

declare skip_piped.simps [code]

text \<open>
  Lines 401--411 and 414--415 at node \<open>c\<close>, after \<^verbatim>\<open>status\<close> has been assigned:
  the flags of the node decide how the status enters \<^verbatim>\<open>allStatus\<close> and whether
  the rest of the chain is skipped; then the walk moves on.
\<close>

definition combine :: "command_t \<Rightarrow> walker \<Rightarrow> walker" where
  "combine n s =
     (if stopOnFailure n then s\<lparr>allStatus := allStatus s + \<bar>status s\<bar>, stopped := status s\<rparr>
      else if stopOnSuccess n then
        s\<lparr>allStatus := allStatus s * status s, stopped := (if status s = 0 then 1 else 0)\<rparr>
      else s\<lparr>allStatus := allStatus s + status s\<rparr>)"

definition advance :: "command_t \<Rightarrow> walker \<Rightarrow> walker" where
  "advance n s = s\<lparr>count := count s + 1, chain := nextCom n\<rparr>"

partial_function (option) walk ::
  "world \<Rightarrow> (nat \<Rightarrow> char) \<Rightarrow> (nat \<Rightarrow> nat option) \<Rightarrow> command_t list \<Rightarrow> walker
     \<Rightarrow> (int \<times> nat) run option" where
  "walk w buf lst cs s =
     (case chain s of
        None \<Rightarrow> Some (Returns (allStatus s, count s), launched s)
      | Some c \<Rightarrow>
          (case node_at cs c of
             None \<Rightarrow> Some (Fault, launched s)
           | Some n \<Rightarrow>
               if stopped s \<noteq> 0 then walk w buf lst cs (advance n s)
               else if piped n then
                 Option.bind (executePipedCommands w buf lst cs c (nextCom n))
                   (\<lambda>r. case fst r of
                          Fault \<Rightarrow> Some (Fault, launched s @ snd r)
                        | Exits code \<Rightarrow> Some (Exits code, launched s @ snd r)
                        | Returns v \<Rightarrow>
                            Option.bind (skip_piped cs c (count s))
                              (\<lambda>e. case e of
                                     Returns (c', k) \<Rightarrow>
                                       (case node_at cs c' of
                                          None \<Rightarrow> Some (Fault, launched s @ snd r)
                                        | Some n' \<Rightarrow>
                                            walk w buf lst cs
                                              (advance n'
                                                 (combine n'
                                                    (s\<lparr>status := v, chain := Some c', count := k,
                                                       launched := launched s @ snd r\<rparr>))))
                                   | _ \<Rightarrow> Some (Fault, launched s @ snd r)))
               else
                 (let r = executeSingleCommand w buf lst cs c in
                  case fst r of
                    Fault \<Rightarrow> Some (Fault, launched s @ snd r)
                  | Exits code \<Rightarrow> Some (Exits code, launched s @ snd r)
                  | Returns v \<Rightarrow>
                      walk w buf lst cs
                        (advance n (combine n (s\<lparr>status := v, launched := launched s @ snd r\<rparr>))))))"

declare walk.simps [code]

definition executeCommandChain ::
  "world \<Rightarrow> (nat \<Rightarrow> char) \<Rightarrow> (nat \<Rightarrow> nat option) \<Rightarrow> command_t list \<Rightarrow> nat
     \<Rightarrow> (int \<times> nat) run option" where
  "executeCommandChain w buf lst cs head =
     walk w buf lst cs
       \<lparr>chain = Some head, stopped = 0, status = 0, allStatus = stack_garbage w head,
        count = 0, launched = []\<rparr>"


subsection \<open>One line of input in \<^verbatim>\<open>main\<close> (lines 93--101)\<close>

text \<open>
  The \<^verbatim>\<open>for\<close> loop over the chains that \<^verbatim>\<open>buildCommandChains\<close> counted, run on the
  arrays it filled: \<open>k\<close> chains are still to run and
  \<open>passed\<close> is \<^verbatim>\<open>main\<close>'s \<^verbatim>\<open>commandCount\<close>. The loop returns nothing; the run's value
  here is the final \<^verbatim>\<open>commandCount\<close>, the sum of the counts the chain executor
  reported.
\<close>

fun run_chains ::
  "world \<Rightarrow> (nat \<Rightarrow> char) \<Rightarrow> (nat \<Rightarrow> nat option) \<Rightarrow> command_t list \<Rightarrow> nat \<Rightarrow> nat \<Rightarrow> nat list
     \<Rightarrow> nat run option" where
  "run_chains w buf lst cs 0 passed tr = Some (Returns passed, tr)"
| "run_chains w buf lst cs (Suc k) passed tr =
     Option.bind (executeCommandChain w buf lst cs passed)
       (\<lambda>r. case fst r of
              Fault \<Rightarrow> Some (Fault, tr @ snd r)
            | Exits code \<Rightarrow> Some (Exits code, tr @ snd r)
            | Returns (exitStatus, chainSkip) \<Rightarrow>
                run_chains w buf lst cs k (passed + chainSkip) (tr @ snd r))"

subsection \<open>Facts about the lexer\<close>

lemma ws_plain:
  assumes "ISWHITESPACE c"
  shows "c \<noteq> NUL" "c \<noteq> CHR 0x5C" "c \<noteq> CHR 0x27" "c \<noteq> CHR 0x22" "\<not> ISCONTROLCHAR c"
  using assms by (auto simp: ISWHITESPACE_def ISCONTROLCHAR_def NUL_def)

lemma ctl_plain:
  assumes "ISCONTROLCHAR c"
  shows "c \<noteq> NUL" "c \<noteq> CHR 0x5C" "c \<noteq> CHR 0x27" "c \<noteq> CHR 0x22" "\<not> ISWHITESPACE c"
  using assms by (auto simp: ISWHITESPACE_def ISCONTROLCHAR_def NUL_def)

text \<open>
  Two steps of the loop on a backslash that is not itself escaped, followed by any
  character of the line: the first step only raises \<open>escaped\<close>, and the second
  falls through every test of lines 139--154 to the copying branch.
\<close>

lemma scan_backslash:
  assumes "\<not> escaped s" and "c \<noteq> NUL"
  shows "scan bb lb s (CHR 0x5C # c # cs) =
         scan bb lb (s\<lparr>curArg := curArg s @ [c], escaped := False,
                       processed := processed s + 2\<rparr>) cs"
  using assms by (simp add: NUL_def)

text \<open>
  Whitespace before any argument character is skipped, and a control character met
  there stops the call with \<open>SR_ERROR\<close> (lines 213--216).
\<close>

lemma scan_leading_control:
  assumes "\<forall>w \<in> set ws. ISWHITESPACE w" and "ISCONTROLCHAR c"
    and "curArg s = []" and "\<not> escaped s" and "\<not> quoted s"
  shows "scan bb lb s (ws @ c # rest) =
         s\<lparr>processed := processed s + length ws, outStop := SR_ERROR\<rparr>"
  using assms
proof (induction ws arbitrary: s)
  case Nil
  then show ?case by (simp add: ctl_plain)
next
  case (Cons w ws)
  then show ?case by (simp add: ws_plain)
qed

declare scan.simps(2) [simp del]

lemma classify_reason:
  "classify cs = Some (r, extra) \<Longrightarrow> r \<noteq> SR_DONE \<and> r \<noteq> SR_ERROR"
  by (cases cs) (auto simp: Let_def split: if_splits)

text \<open>The branches of one pass through the loop body, one equation each.\<close>

lemma scan_nul: "c = NUL \<Longrightarrow> scan bb lb s (c # cs) = s\<lparr>outStop := SR_DONE\<rparr>"
  by (simp add: scan.simps(2))

lemma scan_bs:
  assumes "c \<noteq> NUL" and "c = CHR 0x5C \<and> \<not> escaped s"
  shows "scan bb lb s (c # cs) = scan bb lb (s\<lparr>escaped := True, processed := processed s + 1\<rparr>) cs"
  apply (subst scan.simps(2))
  apply (subst if_not_P [OF assms(1)])
  apply (subst if_P [OF assms(2)])
  apply (rule refl)
  done

lemma scan_quote:
  assumes "c \<noteq> NUL" and "\<not> (c = CHR 0x5C \<and> \<not> escaped s)"
    and "(c = CHR 0x27 \<or> c = CHR 0x22) \<and> \<not> escaped s"
  shows "scan bb lb s (c # cs) =
         scan bb lb
          ((if \<not> quoted s then s\<lparr>quoteChar := c, quoted := True\<rparr>
            else if c = quoteChar s then s\<lparr>quoted := False, quoteChar := NUL\<rparr>
            else s)\<lparr>processed := processed s + 1\<rparr>) cs"
  apply (subst scan.simps(2))
  apply (subst if_not_P [OF assms(1)])
  apply (subst if_not_P [OF assms(2)])
  apply (subst if_P [OF assms(3)])
  apply (rule refl)
  done

lemma scan_flush:
  assumes "c \<noteq> NUL" and "\<not> (c = CHR 0x5C \<and> \<not> escaped s)"
    and "\<not> ((c = CHR 0x27 \<or> c = CHR 0x22) \<and> \<not> escaped s)"
    and "(ISWHITESPACE c \<or> ISCONTROLCHAR c) \<and> \<not> (escaped s \<or> quoted s)"
    and "curArg s \<noteq> []"
    and "s1 = (flush bb lb s)\<lparr>processed := processed s + length (takeWhile ISWHITESPACE (c # cs))\<rparr>"
    and "rest = dropWhile ISWHITESPACE (c # cs)"
  shows "scan bb lb s (c # cs) =
         (case classify rest of
            Some (r, extra) \<Rightarrow> s1\<lparr>outStop := r, processed := processed s1 + extra\<rparr>
          | None \<Rightarrow> scan bb lb s1 rest)"
  unfolding assms(6,7)
  apply (subst scan.simps(2))
  apply (subst if_not_P [OF assms(1)])
  apply (subst if_not_P [OF assms(2)])
  apply (subst if_not_P [OF assms(3)])
  apply (subst if_P [OF assms(4)])
  apply (subst if_P [OF assms(5)])
  apply (unfold Let_def)
  apply (rule refl)
  done

lemma scan_error:
  assumes "c \<noteq> NUL" and "\<not> (c = CHR 0x5C \<and> \<not> escaped s)"
    and "\<not> ((c = CHR 0x27 \<or> c = CHR 0x22) \<and> \<not> escaped s)"
    and "(ISWHITESPACE c \<or> ISCONTROLCHAR c) \<and> \<not> (escaped s \<or> quoted s)"
    and "\<not> curArg s \<noteq> []" and "ISCONTROLCHAR c"
  shows "scan bb lb s (c # cs) = s\<lparr>outStop := SR_ERROR\<rparr>"
  apply (subst scan.simps(2))
  apply (subst if_not_P [OF assms(1)])
  apply (subst if_not_P [OF assms(2)])
  apply (subst if_not_P [OF assms(3)])
  apply (subst if_P [OF assms(4)])
  apply (subst if_not_P [OF assms(5)])
  apply (subst if_P [OF assms(6)])
  apply (rule refl)
  done

lemma scan_skip:
  assumes "c \<noteq> NUL" and "\<not> (c = CHR 0x5C \<and> \<not> escaped s)"
    and "\<not> ((c = CHR 0x27 \<or> c = CHR 0x22) \<and> \<not> escaped s)"
    and "(ISWHITESPACE c \<or> ISCONTROLCHAR c) \<and> \<not> (escaped s \<or> quoted s)"
    and "\<not> curArg s \<noteq> []" and "\<not> ISCONTROLCHAR c"
  shows "scan bb lb s (c # cs) = scan bb lb (s\<lparr>processed := processed s + 1\<rparr>) cs"
  apply (subst scan.simps(2))
  apply (subst if_not_P [OF assms(1)])
  apply (subst if_not_P [OF assms(2)])
  apply (subst if_not_P [OF assms(3)])
  apply (subst if_P [OF assms(4)])
  apply (subst if_not_P [OF assms(5)])
  apply (subst if_not_P [OF assms(6)])
  apply (rule refl)
  done

lemma scan_copy:
  assumes "c \<noteq> NUL" and "\<not> (c = CHR 0x5C \<and> \<not> escaped s)"
    and "\<not> ((c = CHR 0x27 \<or> c = CHR 0x22) \<and> \<not> escaped s)"
    and "\<not> ((ISWHITESPACE c \<or> ISCONTROLCHAR c) \<and> \<not> (escaped s \<or> quoted s))"
  shows "scan bb lb s (c # cs) =
         scan bb lb (s\<lparr>curArg := curArg s @ [c], escaped := False,
                       processed := processed s + 1\<rparr>) cs"
  apply (subst scan.simps(2))
  apply (subst if_not_P [OF assms(1)])
  apply (subst if_not_P [OF assms(2)])
  apply (subst if_not_P [OF assms(3)])
  apply (subst if_not_P [OF assms(4)])
  apply (rule refl)
  done

text \<open>
  A property of the result that holds when the loop stops and is carried back
  through every branch holds of every run.
\<close>

lemma scan_result_induct [consumes 0, case_names finished failed stopped]:
  assumes finished: "\<And>s. P s (s\<lparr>outStop := SR_DONE\<rparr>)"
    and failed: "\<And>s. curArg s = [] \<Longrightarrow> P s (s\<lparr>outStop := SR_ERROR\<rparr>)"
    and stopped: "\<And>s n r extra. curArg s \<noteq> [] \<Longrightarrow> r \<noteq> SR_DONE \<Longrightarrow> r \<noteq> SR_ERROR \<Longrightarrow>
                 P s ((flush bb lb s)\<lparr>processed := n, outStop := r,
                                       processed := n + extra\<rparr>)"
    and local: "\<And>s s' t. argsOffset s' = argsOffset s \<Longrightarrow> outCount s' = outCount s \<Longrightarrow>
                 outBuffer s' = outBuffer s \<Longrightarrow> outList s' = outList s \<Longrightarrow>
                 P s' t \<Longrightarrow> P s t"
    and flushed: "\<And>s n t. curArg s \<noteq> [] \<Longrightarrow> P ((flush bb lb s)\<lparr>processed := n\<rparr>) t \<Longrightarrow> P s t"
  shows "P s (scan bb lb s cs)"
proof -
  have "b = bb \<Longrightarrow> l = lb \<Longrightarrow> P s (scan b l s cs)" for b l
  proof (induction b l s cs rule: scan.induct)
    case (1 b l s)
    show ?case by (simp add: finished)
  next
    case (2 b l s c cs)
    note bl = "2.prems"
    show ?case
    proof (cases "c = NUL")
      case True
      then show ?thesis by (simp only: scan_nul finished)
    next
      case n0: False
      show ?thesis
      proof (cases "c = CHR 0x5C \<and> \<not> escaped s")
        case True
        show ?thesis
          unfolding scan_bs [OF n0 True]
          by (rule local [OF _ _ _ _ "2.IH"(1) [OF n0 True bl]]) simp_all
      next
        case n1: False
        show ?thesis
        proof (cases "(c = CHR 0x27 \<or> c = CHR 0x22) \<and> \<not> escaped s")
          case True
          show ?thesis
            unfolding scan_quote [OF n0 n1 True]
            by (rule local [OF _ _ _ _ "2.IH"(2) [OF n0 n1 True bl]]) simp_all
        next
          case n2: False
          show ?thesis
          proof (cases "(ISWHITESPACE c \<or> ISCONTROLCHAR c) \<and> \<not> (escaped s \<or> quoted s)")
            case sep: True
            show ?thesis
            proof (cases "curArg s \<noteq> []")
              case ne: True
              define s1 where "s1 = (flush b l s)
                 \<lparr>processed := processed s + length (takeWhile ISWHITESPACE (c # cs))\<rparr>"
              define rest where "rest = dropWhile ISWHITESPACE (c # cs)"
              note eq = scan_flush [OF n0 n1 n2 sep ne s1_def rest_def]
              show ?thesis
              proof (cases "classify rest")
                case None
                have "P s1 (scan b l s1 rest)"
                  using "2.IH"(3) [OF n0 n1 n2 sep ne s1_def rest_def None bl] .
                then have "P s (scan b l s1 rest)"
                  unfolding s1_def bl using ne by (rule flushed [rotated])
                then show ?thesis unfolding eq None by simp
              next
                case (Some p)
                obtain r extra where p: "p = (r, extra)" by (cases p)
                from Some p have "r \<noteq> SR_DONE" "r \<noteq> SR_ERROR"
                  using classify_reason [of rest r extra] by simp_all
                then show ?thesis
                  unfolding eq Some p using stopped [OF ne, of r] by (simp add: s1_def bl)
              qed
            next
              case e: False
              show ?thesis
              proof (cases "ISCONTROLCHAR c")
                case True
                show ?thesis
                  unfolding scan_error [OF n0 n1 n2 sep e True] using e by (simp add: failed)
              next
                case False
                show ?thesis
                  unfolding scan_skip [OF n0 n1 n2 sep e False]
                  by (rule local [OF _ _ _ _ "2.IH"(4) [OF n0 n1 n2 sep e False bl]]) simp_all
              qed
            qed
          next
            case n3: False
            show ?thesis
              unfolding scan_copy [OF n0 n1 n2 n3]
              by (rule local [OF _ _ _ _ "2.IH"(5) [OF n0 n1 n2 n3 bl]]) simp_all
          qed
        qed
      qed
    qed
  qed
  then show ?thesis by simp
qed


lemma scan_operator_has_argument:
  "outStop (scan bb lb s cs) = SR_DONE \<or> outStop (scan bb lb s cs) = SR_ERROR
     \<or> 0 < outCount (scan bb lb s cs)"
  by (rule scan_result_induct
        [where P = "\<lambda>s t. outStop t = SR_DONE \<or> outStop t = SR_ERROR \<or> 0 < outCount t"])
     (simp_all add: flush_def)

text \<open>
  What a run of the loop leaves alone: the arguments already flushed, that is the
  pointers below \<open>lb + outCount s\<close> and the bytes below \<open>bb + argsOffset s\<close>.
\<close>

definition extends :: "nat \<Rightarrow> nat \<Rightarrow> lexer \<Rightarrow> lexer \<Rightarrow> bool" where
  "extends bb lb s t =
     (outCount s \<le> outCount t \<and> argsOffset s \<le> argsOffset t \<and>
      (\<forall>j < lb + outCount s. outList t j = outList s j) \<and>
      (\<forall>i < bb + argsOffset s. outBuffer t i = outBuffer s i))"

lemma scan_extends: "extends bb lb s (scan bb lb s cs)"
proof (rule scan_result_induct [where P = "extends bb lb"], goal_cases)
  case (1 s)
  show ?case by (simp add: extends_def)
next
  case (2 s)
  show ?case by (simp add: extends_def)
next
  case (3 s n r extra)
  show ?case by (simp add: extends_def flush_def memcpy_at_def)
next
  case (4 s s' t)
  then show ?case by (simp add: extends_def)
next
  case (5 s n t)
  then show ?case by (simp add: extends_def flush_def memcpy_at_def)
qed

lemma unescaped_id: "\<not> escaped s \<Longrightarrow> s\<lparr>escaped := False\<rparr> = s"
  by (cases s) simp

lemma scan_plain_in_quotes:
  assumes "quoted s" and "\<not> escaped s"
    and "\<forall>c \<in> set w. c \<noteq> NUL \<and> c \<noteq> CHR 0x5C \<and> c \<noteq> CHR 0x27 \<and> c \<noteq> CHR 0x22"
  shows "scan bb lb s (w @ cs) =
         scan bb lb (s\<lparr>curArg := curArg s @ w, processed := processed s + length w\<rparr>) cs"
  using assms
proof (induction w arbitrary: s)
  case Nil
  then show ?case by simp
next
  case (Cons c w)
  let ?s = "s\<lparr>curArg := curArg s @ [c], escaped := False, processed := processed s + 1\<rparr>"
  have "scan bb lb s ((c # w) @ cs) = scan bb lb ?s (w @ cs)"
    using Cons.prems by (simp add: scan_copy)
  also have "\<dots> = scan bb lb (?s\<lparr>curArg := curArg ?s @ w,
                                processed := processed ?s + length w\<rparr>) cs"
    using Cons.prems by (intro Cons.IH) simp_all
  also have "?s\<lparr>curArg := curArg ?s @ w, processed := processed ?s + length w\<rparr> =
             (s\<lparr>escaped := False\<rparr>)\<lparr>curArg := curArg s @ c # w,
                processed := processed s + length (c # w)\<rparr>"
    by simp
  finally show ?case
    using Cons.prems(2) by (simp add: unescaped_id)
qed

lemma cstr_memcpy:
  assumes "\<forall>c \<in> set w. c \<noteq> NUL" and "a + length w < MAX_INPUT_LEN"
    and "\<forall>i < length w. m (a + i) = w ! i" and "m (a + length w) = NUL"
  shows "cstr m a = w"
proof -
  have split: "[a ..< MAX_INPUT_LEN] =
               [a ..< a + length w] @ (a + length w) # [Suc (a + length w) ..< MAX_INPUT_LEN]"
    using assms(2) by (metis le_add1 upt_add_eq_append upt_conv_Cons less_imp_le_nat
        le_Suc_ex)
  have "map m [a ..< a + length w] = w"
    by (rule nth_equalityI) (use assms(3) in simp_all)
  then have "map m [a ..< MAX_INPUT_LEN] = w @ NUL # map m [Suc (a + length w) ..< MAX_INPUT_LEN]"
    unfolding split using assms(4) by simp
  then have "cstr m a = takeWhile (\<lambda>c. c \<noteq> NUL) (w @ NUL # map m [Suc (a + length w) ..< MAX_INPUT_LEN])"
    by (simp only: cstr_def)
  also have "\<dots> = w"
    using assms(1) by (simp del: upt_Suc)
  finally show ?thesis .
qed


subsection \<open>Escaping\<close>

text \<open>
  C8. Outside quotes, a backslash that is not itself escaped and the character \<open>c\<close>
  after it have, in every state of the lexer and before every rest of the line,
  exactly the effect of appending \<open>c\<close> to the argument being accumulated: the
  backslash is not copied, \<open>c\<close> is copied whatever it is (whitespace, a control
  character, a quote, another backslash), nothing is flushed, the call does not
  stop, the quoting state is untouched, and \<open>escaped\<close> is down again for the
  character that follows, so the escape reaches one character and no further.
\<close>

theorem escaped_char_copied_literally:
  assumes "\<not> quoted s" and "\<not> escaped s" and "c \<noteq> NUL"
  shows "scan bb lb s (CHR 0x5C # c # cs) =
         scan bb lb (s\<lparr>curArg := curArg s @ [c], escaped := False,
                       processed := processed s + 2\<rparr>) cs"
proof -
  from assms(2,3) show ?thesis
    by (rule scan_backslash)
qed

theorem escaped_char_copied_literally_witness:
  "curArg (scan 0 0 (lexer_init (\<lambda>_. NUL) (\<lambda>_. None)) [CHR 0x5C, CHR '';'', CHR 0x5C, CHR '' ''])
     = ''; '' \<and>
   outCount (scan 0 0 (lexer_init (\<lambda>_. NUL) (\<lambda>_. None)) [CHR 0x5C, CHR '';'', CHR 0x5C, CHR '' ''])
     = 0"
  using escaped_char_copied_literally
          [of "lexer_init (\<lambda>_. NUL) (\<lambda>_. None)" "CHR '';''" 0 0 "[CHR 0x5C, CHR '' '']"]
  by (simp add: lexer_init_def NUL_def scan.simps(2))

text \<open>
  C10. The same holds inside a quoted region: the test for the backslash (line 139)
  comes before the tests for quotes and does not look at \<open>quoted\<close>, so an
  unescaped backslash between quotes is dropped and the character after it is
  copied, also when that character is the quote that opened the region, which
  then does not close it.
\<close>

theorem backslash_escapes_inside_quotes:
  assumes "quoted s" and "\<not> escaped s" and "c \<noteq> NUL"
  shows "scan bb lb s (CHR 0x5C # c # cs) =
         scan bb lb (s\<lparr>curArg := curArg s @ [c], escaped := False,
                       processed := processed s + 2\<rparr>) cs
         \<and> quoted (s\<lparr>curArg := curArg s @ [c], escaped := False,
                       processed := processed s + 2\<rparr>)"
proof -
  from assms(2,3) have "scan bb lb s (CHR 0x5C # c # cs) =
         scan bb lb (s\<lparr>curArg := curArg s @ [c], escaped := False,
                       processed := processed s + 2\<rparr>) cs"
    by (rule scan_backslash)
  with assms(1) show ?thesis by simp
qed

theorem backslash_escapes_inside_quotes_witness:
  "curArg (scan 0 0 ((lexer_init (\<lambda>_. NUL) (\<lambda>_. None))\<lparr>quoted := True, quoteChar := CHR 0x22\<rparr>)
             [CHR 0x5C, CHR 0x22, CHR ''b'']) = [CHR 0x22, CHR ''b''] \<and>
   quoted (scan 0 0 ((lexer_init (\<lambda>_. NUL) (\<lambda>_. None))\<lparr>quoted := True, quoteChar := CHR 0x22\<rparr>)
             [CHR 0x5C, CHR 0x22, CHR ''b''])"
  using backslash_escapes_inside_quotes
          [of "(lexer_init (\<lambda>_. NUL) (\<lambda>_. None))\<lparr>quoted := True, quoteChar := CHR 0x22\<rparr>"
              "CHR 0x22" 0 0 "[CHR ''b'']"]
  by (simp add: lexer_init_def NUL_def scan.simps(2))

subsection \<open>Quoting\<close>

lemma args_of_nth:
  assumes "k < outCount t" and "outList t (lb + k) = Some a"
  shows "args_of t lb ! k = cstr (outBuffer t) a"
  using assms by (simp add: args_of_def)

lemma args_of_processed: "args_of (t\<lparr>processed := n\<rparr>) lb = args_of t lb"
  by (simp add: args_of_def cong: option.case_cong)

lemma scan_empty_quotes:
  assumes "q = CHR 0x27 \<or> q = CHR 0x22" and "\<not> escaped s" and "\<not> quoted s"
  shows "scan bb lb s (q # q # cs) =
         scan bb lb (s\<lparr>quoteChar := NUL, processed := processed s + 2\<rparr>) cs"
proof -
  have qn: "q \<noteq> NUL" "q \<noteq> CHR 0x5C"
    using assms(1) by (auto simp: NUL_def)
  define s1 where "s1 = s\<lparr>quoteChar := q, quoted := True, processed := processed s + 1\<rparr>"
  have "scan bb lb s (q # q # cs) = scan bb lb s1 (q # cs)"
    using assms qn by (subst scan_quote) (simp_all add: s1_def)
  also have "\<dots> = scan bb lb
      (s1\<lparr>quoted := False, quoteChar := NUL, processed := processed s1 + 1\<rparr>) cs"
    using assms qn by (subst scan_quote) (simp_all add: s1_def)
  also have "s1\<lparr>quoted := False, quoteChar := NUL, processed := processed s1 + 1\<rparr>
               = s\<lparr>quoteChar := NUL, processed := processed s + 2\<rparr>"
    using assms(3) by (simp add: s1_def)
  finally show ?thesis .
qed

text \<open>
  The lexer copies an argument with \<^verbatim>\<open>memcpy\<close> and writes no terminator: it
  relies on the byte behind the copy being zero already. \<open>blank bb s\<close>: the
  buffer is zero from the place where the next argument goes. A call that starts
  on such a buffer keeps it so.
\<close>

definition blank :: "nat \<Rightarrow> lexer \<Rightarrow> bool" where
  "blank bb s = (\<forall>i. bb + argsOffset s \<le> i \<longrightarrow> outBuffer s i = NUL)"

lemma scan_keeps_blank: "blank bb s \<Longrightarrow> blank bb (scan bb lb s cs)"
proof -
  have "blank bb s \<longrightarrow> blank bb (scan bb lb s cs)"
  proof (rule scan_result_induct [where P = "\<lambda>s t. blank bb s \<longrightarrow> blank bb t"], goal_cases)
    case (1 s)
    show ?case by (simp add: blank_def)
  next
    case (2 s)
    show ?case by (simp add: blank_def)
  next
    case (3 s n r extra)
    show ?case by (simp add: blank_def flush_def memcpy_at_def)
  next
    case (4 s s' t)
    then show ?case by (simp add: blank_def)
  next
    case (5 s n t)
    then show ?case by (simp add: blank_def flush_def memcpy_at_def)
  qed
  then show "blank bb s \<Longrightarrow> blank bb (scan bb lb s cs)" by simp
qed

lemma lexer_init_blank: "\<forall>i \<ge> bb. buf i = NUL \<Longrightarrow> blank bb (lexer_init buf lst)"
  by (simp add: blank_def lexer_init_def)

text \<open>
  C7, as the code has it. Wherever an argument can start (no argument is being
  accumulated, nothing is escaped or quoted: the start of a lexer call, or after
  whitespace), a non-empty text without backslash and without quote characters,
  wrapped in a pair of equal quotes and followed by whitespace or a control
  character, comes out as the next argument of the call, byte for byte:
  whitespace and control characters between the quotes are copied like any other
  character. The argument is read back from the buffer as the C string at its
  pointer in the list, so the byte behind the copy must be zero; the lexer does
  not write it. It is zero wherever the buffer is \<open>blank\<close>, which a call that
  starts on a blank buffer maintains; the zeroed buffer that \<^verbatim>\<open>main\<close> passes can
  stop being blank when a call is rejected after it has written an argument.
  An empty pair of quotes in the same place yields no argument: the lexer goes
  on behind it from the state it was in, two characters further.
\<close>

theorem quoted_text_is_one_argument:
  assumes q: "q = CHR 0x27 \<or> q = CHR 0x22"
    and body: "body \<noteq> []"
      "\<forall>c \<in> set body. c \<noteq> NUL \<and> c \<noteq> CHR 0x5C \<and> c \<noteq> CHR 0x27 \<and> c \<noteq> CHR 0x22"
    and sep: "ISWHITESPACE e \<or> ISCONTROLCHAR e"
    and start: "curArg s = []" "\<not> escaped s" "\<not> quoted s"
    and room: "bb + argsOffset s + length body < MAX_INPUT_LEN"
      "outBuffer s (bb + argsOffset s + length body) = NUL"
  shows "outCount s < outCount (scan bb lb s (q # body @ q # e # rest)) \<and>
         args_of (scan bb lb s (q # body @ q # e # rest)) lb ! outCount s = body \<and>
         scan bb lb s (q # q # e # rest) =
           scan bb lb (s\<lparr>quoteChar := NUL, processed := processed s + 2\<rparr>) (e # rest)"
proof -
  define s1 where "s1 = s\<lparr>quoteChar := q, quoted := True, processed := processed s + 1\<rparr>"
  define s2 where "s2 = s1\<lparr>curArg := curArg s1 @ body, processed := processed s1 + length body\<rparr>"
  define s3 where "s3 = s2\<lparr>quoted := False, quoteChar := NUL, processed := processed s2 + 1\<rparr>"
  define s4 where "s4 = (flush bb lb s3)
     \<lparr>processed := processed s3 + length (takeWhile ISWHITESPACE (e # rest))\<rparr>"
  define t where "t = scan bb lb s (q # body @ q # e # rest)"
  define a where "a = bb + argsOffset s"
  have qn: "q \<noteq> NUL" "q \<noteq> CHR 0x5C"
    using q by (auto simp: NUL_def)
  have en: "e \<noteq> NUL" "e \<noteq> CHR 0x5C" "e \<noteq> CHR 0x27" "e \<noteq> CHR 0x22"
    using sep ws_plain ctl_plain by blast+
  have "t = scan bb lb s1 (body @ q # e # rest)"
    unfolding t_def using q qn start
    by (subst scan_quote) (simp_all add: s1_def)
  also have "\<dots> = scan bb lb s2 (q # e # rest)"
    unfolding s2_def using body(2) start
    by (intro scan_plain_in_quotes) (simp_all add: s1_def)
  also have "\<dots> = scan bb lb s3 (e # rest)"
    using q qn start
    by (subst scan_quote) (simp_all add: s1_def s2_def s3_def)
  also have "\<dots> = (case classify (dropWhile ISWHITESPACE (e # rest)) of
                      Some (r, extra) \<Rightarrow> s4\<lparr>outStop := r, processed := processed s4 + extra\<rparr>
                    | None \<Rightarrow> scan bb lb s4 (dropWhile ISWHITESPACE (e # rest)))"
    using en sep body(1) start
    by (intro scan_flush [OF _ _ _ _ _ s4_def refl])
       (simp_all add: s1_def s2_def s3_def)
  finally have t: "t = (case classify (dropWhile ISWHITESPACE (e # rest)) of
                      Some (r, extra) \<Rightarrow> s4\<lparr>outStop := r, processed := processed s4 + extra\<rparr>
                    | None \<Rightarrow> scan bb lb s4 (dropWhile ISWHITESPACE (e # rest)))" .
  have ext: "extends bb lb s4 t"
  proof (cases "classify (dropWhile ISWHITESPACE (e # rest))")
    case None
    then show ?thesis
      using scan_extends [of bb lb s4] by (simp add: t)
  next
    case (Some p)
    then show ?thesis
      by (cases p) (simp add: t extends_def)
  qed
  have s4: "outCount s4 = outCount s + 1" "argsOffset s4 = argsOffset s + (length body + 1)"
    "outList s4 (lb + outCount s) = Some a" "outBuffer s4 = memcpy_at a body (outBuffer s)"
    using start(1) by (simp_all add: s4_def flush_def s3_def s2_def s1_def a_def)
  from ext s4 have cnt: "outCount s < outCount t" and ptr: "outList t (lb + outCount s) = Some a"
    and mem: "\<forall>i < a + (length body + 1). outBuffer t i = memcpy_at a body (outBuffer s) i"
    by (simp_all add: extends_def a_def add.assoc)
  have "cstr (outBuffer t) a = body"
  proof (rule cstr_memcpy)
    show "\<forall>c \<in> set body. c \<noteq> NUL" using body(2) by simp
    show "a + length body < MAX_INPUT_LEN" using room(1) by (simp add: a_def)
    show "\<forall>i < length body. outBuffer t (a + i) = body ! i"
      using mem by (simp add: memcpy_at_def)
    show "outBuffer t (a + length body) = NUL"
      using mem room(2) by (simp add: memcpy_at_def a_def)
  qed
  with cnt ptr have "outCount s < outCount t \<and> args_of t lb ! outCount s = body"
    by (simp add: args_of_nth)
  moreover have "scan bb lb s (q # q # e # rest) =
      scan bb lb (s\<lparr>quoteChar := NUL, processed := processed s + 2\<rparr>) (e # rest)"
    using q start(2,3) by (rule scan_empty_quotes)
  ultimately show ?thesis
    unfolding t_def by simp
qed

theorem quoted_text_is_one_argument_witness:
  "args_of (processArgs [CHR 0x22, CHR ''b'', CHR '' '', CHR '';'', CHR ''c'', CHR 0x22, CHR 0x0A]
              0 (\<lambda>_. NUL) 0 (\<lambda>_. None)) 0 ! 0 = ''b ;c'' \<and>
   outCount (processArgs [CHR 0x22, CHR 0x22, CHR 0x0A] 0 (\<lambda>_. NUL) 0 (\<lambda>_. None)) = 0"
proof -
  have "outCount (scan 0 0 (lexer_init (\<lambda>_. NUL) (\<lambda>_. None)
                              \<lparr>quoteChar := NUL, processed := Suc (Suc 0)\<rparr>) [CHR 0x0A]) = 0"
    by code_simp
  then show ?thesis
    using quoted_text_is_one_argument
          [where q = "CHR 0x22" and body = "''b ;c''" and e = "CHR 0x0A" and rest = "[]"
             and s = "lexer_init (\<lambda>_. NUL) (\<lambda>_. None)" and bb = 0 and lb = 0]
    by (simp add: processArgs_def Let_def args_of_processed lexer_init_def ISWHITESPACE_def
        NUL_def MAX_INPUT_LEN_def)
qed

text \<open>
  C7 as stated fails on a backslash between the quotes: \<^verbatim>\<open>'a\b'\<close> comes out
  as \<^verbatim>\<open>ab\<close>, not as the content \<^verbatim>\<open>a\b\<close>.
\<close>

theorem quoted_backslash_counterexample:
  "args_of (processArgs [CHR 0x27, CHR ''a'', CHR 0x5C, CHR ''b'', CHR 0x27, CHR 0x0A]
              0 (\<lambda>_. NUL) 0 (\<lambda>_. None)) 0 = [''ab''] \<and>
   [''ab''] \<noteq> [[CHR ''a'', CHR 0x5C, CHR ''b'']]"
  by code_simp

text \<open>
  Why the byte behind the copy matters. On \<^verbatim>\<open>abcdef "" ;"y z"\<close> the first call
  writes \<^verbatim>\<open>abcdef\<close> and is then rejected at the \<^verbatim>\<open>;\<close> with the parse error, so the
  builder does not advance in the buffer (line 287); the second call copies
  \<^verbatim>\<open>y z\<close> over it, and the argument reads \<^verbatim>\<open>y zdef\<close>.
\<close>

lemma rejected_call_leaves_residue:
  "map_option
     (\<lambda>st. (map (\<lambda>n. map_option (cstr (argBuffer st)) (argListMem st (argList n))) (chains st),
             errs st))
     (buildCommandChains (\<lambda>n f fl. 3)
        (''abcdef '' @ [CHR 0x22, CHR 0x22] @ '' ;'' @ [CHR 0x22] @ ''y z'' @ [CHR 0x22, CHR 0x0A])
        (\<lambda>_. NUL) (\<lambda>_. None))
   = Some ([Some ''y zdef''], [Unrecognized_command_input])"
  by code_simp

subsection \<open>Facts about one pass of the builder\<close>

lemma processArgs_operator_has_argument:
  assumes "outStop (processArgs input bb buf lb lst) \<noteq> SR_DONE"
    and "outStop (processArgs input bb buf lb lst) \<noteq> SR_ERROR"
  shows "0 < outCount (processArgs input bb buf lb lst)"
  using assms scan_operator_has_argument [of bb lb "lexer_init buf lst" input]
  by (simp add: processArgs_def Let_def)

lemma call_lexer_fields:
  "getFd (call_lexer input st) = getFd st"
  "continueLast (call_lexer input st) = continueLast st"
  "chainCount (call_lexer input st) = chainCount st"
  "commandCount (call_lexer input st) = commandCount st"
  "lastCom (call_lexer input st) = lastCom st"
  "com (call_lexer input st) = com st"
  "chains (call_lexer input st) = chains st"
  "opens (call_lexer input st) = opens st"
  "errs (call_lexer input st) = errs st"
  "oflags (call_lexer input st) = oflags st"
  "argTotal (call_lexer input st) = argTotal st"
  "argCharsTotal (call_lexer input st) = argCharsTotal st"
  by (simp_all add: call_lexer_def Let_def)

lemma map_update_same:
  assumes "\<And>n. f (g n) = f n"
  shows "map f (xs[i := g (xs ! i)]) = map f xs"
proof (cases "i < length xs")
  case True
  then show ?thesis
    by (simp add: map_update assms list_update_same_conv)
next
  case False
  then have "xs[i := g (xs ! i)] = xs"
    by (intro list_update_beyond) simp
  then show ?thesis by simp
qed

lemma map_fdIn_new_command:
  "map fdIn (chains (new_command st)) = map fdIn (chains st) @ [0]"
  by (cases "lastCom st") (simp_all add: new_command_def Let_def map_update_same)

lemma processArgs_leading_control:
  assumes "\<forall>w \<in> set ws. ISWHITESPACE w" and "ISCONTROLCHAR c"
  shows "processArgs (ws @ c # rest) bb buf lb lst =
         (lexer_init buf lst)\<lparr>processed := length ws + 1, outStop := SR_ERROR\<rparr>"
  using scan_leading_control [OF assms, of "lexer_init buf lst" bb lb rest]
  by (simp add: processArgs_def Let_def lexer_init_def)

subsection \<open>The here-document operator\<close>

text \<open>
  C5, as the code has it. The \<^verbatim>\<open>switch\<close> has no case for \<open>SR_REDIRECT_IN_HERE\<close>, so
  \<^verbatim>\<open><<\<close> takes the \<^verbatim>\<open>default\<close> label that \<^verbatim>\<open>;\<close> and the end of input take. A pass in
  command mode whose lexer call stops at \<^verbatim>\<open><<\<close> ends with the chain closed: the
  chain count is one higher, \<^verbatim>\<open>lastCom\<close> is null, the builder is not in
  redirection-target mode, no file has been opened, and no descriptor of an older
  node has changed; the node created by the pass, if any, has the standard input.
\<close>

theorem heredoc_closes_chain:
  assumes "getFd st = None"
    and "stopReason (call_lexer input st) = SR_REDIRECT_IN_HERE"
  shows "\<exists>st'. iteration openf input st = Some st' \<and>
           chainCount st' = chainCount st + 1 \<and> lastCom st' = None \<and>
           getFd st' = None \<and> opens st' = opens st \<and>
           map fdIn (chains st') = map fdIn (chains st) @ (if continueLast st then [] else [0])"
proof -
  define st1 where "st1 = call_lexer input st"
  have stop: "stopReason st1 = SR_REDIRECT_IN_HERE"
    using assms(2) by (simp add: st1_def)
  have "0 < argCount st1"
    using assms(2) processArgs_operator_has_argument
    by (simp add: st1_def call_lexer_def Let_def)
  then have it: "iteration openf input st =
      react ((if \<not> continueLast st1 then new_command st1 else st1)
               \<lparr>argCharsTotal := argCharsTotal (if \<not> continueLast st1 then new_command st1 else st1)
                                  + argChars (if \<not> continueLast st1 then new_command st1 else st1),
                argTotal := argTotal (if \<not> continueLast st1 then new_command st1 else st1)
                             + (argCount (if \<not> continueLast st1 then new_command st1 else st1) + 1),
                continueLast := False\<rparr>)"
    using assms(1) stop by (simp add: iteration_def Let_def st1_def [symmetric])
  show ?thesis
  proof (cases "continueLast st")
    case True
    then show ?thesis
      using stop assms(1) unfolding it
      by (simp add: st1_def call_lexer_fields react_def)
  next
    case False
    then show ?thesis
      using stop assms(1) unfolding it
      by (simp add: st1_def call_lexer_fields react_def new_command_keeps map_fdIn_new_command)
         (simp add: new_command_def Let_def call_lexer_fields)
  qed
qed


theorem heredoc_closes_chain_witness:
  "\<exists>st'. iteration (\<lambda>n f fl. 3) ''a << b\<newline>''
            (builder_init (\<lambda>_. NUL) (\<lambda>_. None)) = Some st' \<and>
         chainCount st' = 1 \<and> lastCom st' = None \<and> getFd st' = None \<and> opens st' = 0 \<and>
         map fdIn (chains st') = [0]"
  using heredoc_closes_chain
          [of "builder_init (\<lambda>_. NUL) (\<lambda>_. None)" "''a << b\<newline>''" "\<lambda>n f fl. 3"]
  by (simp add: builder_init_def call_lexer_def processArgs_def lexer_init_def Let_def NUL_def
        ISWHITESPACE_def ISCONTROLCHAR_def flush_def scan.simps(2))

text \<open>
  C5 as stated fails: on \<^verbatim>\<open>a << b\<close> the builder makes two chains of one node each and opens nothing;
  on \<^verbatim>\<open>a < b\<close> it makes one node, whose input is the descriptor of \<^verbatim>\<open>b\<close>.
\<close>

theorem heredoc_counterexample:
  "map_option (\<lambda>st. (chainCount st, commandCount st, map fdIn (chains st), opens st))
     (buildCommandChains (\<lambda>n f fl. 3) ''a << b\<newline>'' (\<lambda>_. NUL) (\<lambda>_. None))
     = Some (2, 2, [0, 0], 0) \<and>
   map_option (\<lambda>st. (chainCount st, commandCount st, map fdIn (chains st), opens st))
     (buildCommandChains (\<lambda>n f fl. 3) ''a < b\<newline>'' (\<lambda>_. NUL) (\<lambda>_. None))
     = Some (1, 1, [3], 1)"
  by code_simp

subsection \<open>Failed redirections\<close>

text \<open>
  C4. Both \<^verbatim>\<open>continue\<close> statements of redirection mode (lines 265 and 275) leave
  the loop body before \<^verbatim>\<open>getFd = 0\<close> (line 278), and line 272 stores the result of
  \<^verbatim>\<open>open\<close> through \<^verbatim>\<open>getFd\<close> before line 273 tests it. On \<^verbatim>\<open>a > ; b\<close> the parse
  error at \<^verbatim>\<open>;\<close> is reported, and the next segment \<^verbatim>\<open>b\<close> is then taken as the file
  name: the output of \<^verbatim>\<open>a\<close> ends as the descriptor of \<^verbatim>\<open>b\<close>, and no command \<^verbatim>\<open>b\<close> is built.
  On \<^verbatim>\<open>a < b;c\<close> with no file that can be opened, the input of \<^verbatim>\<open>a\<close> is \<open>-1\<close>, the
  segment \<^verbatim>\<open>c\<close> is tried as a file name as well, and the builder is still in
  redirection mode when the line ends; the chain is never counted.
\<close>

theorem failed_redirection_evaluated:
  "map_option (\<lambda>st. (map fdOut (chains st), commandCount st, chainCount st, errs st))
     (buildCommandChains (\<lambda>n f fl. 3) ''a > ; b\<newline>'' (\<lambda>_. NUL) (\<lambda>_. None))
     = Some ([3], 1, 1, [Error_reading_filename_for_redirect]) \<and>
   map_option (\<lambda>st. (map fdIn (chains st), getFd st, chainCount st, errs st))
     (buildCommandChains (\<lambda>n f fl. - 1) ''a < b;c\<newline>'' (\<lambda>_. NUL) (\<lambda>_. None))
     = Some ([- 1], Some (0, FdIn), 0,
             [Error_opening_file_for_redirect ''b'', Error_opening_file_for_redirect ''c''])"
  by code_simp

subsection \<open>Parse errors\<close>

text \<open>
  C6, as the code has it. A control character that is the first character of a
  lexer call after optional whitespace stops the call with \<open>SR_ERROR\<close>, consumed up
  to and including that character, with no argument. In command mode, outside a
  continuation after \<^verbatim>\<open>&\<close>, the builder prints its message, creates no node and
  changes nothing else but the cursor, and the loop goes on from the character
  after the control character exactly as it would from there on a fresh pass.
\<close>

theorem leading_control_is_parse_error:
  assumes ws: "\<forall>w \<in> set ws. ISWHITESPACE w" and c: "ISCONTROLCHAR c"
    and inp: "drop (inputPos st) input = ws @ c # rest"
    and normal: "getFd st = None" "\<not> continueLast st"
  defines "st' \<equiv> st\<lparr>inputPos := inputPos st + (length ws + 1), argChars := 0, argCount := 0,
                       stopReason := SR_ERROR,
                       errs := errs st @ [Unrecognized_command_input]\<rparr>"
  shows "outStop (processArgs (ws @ c # rest) bb buf lb lst) = SR_ERROR \<and>
         processed (processArgs (ws @ c # rest) bb buf lb lst) = length ws + 1 \<and>
         outCount (processArgs (ws @ c # rest) bb buf lb lst) = 0 \<and>
         iteration openf input st = Some st' \<and>
         chains st' = chains st \<and> commandCount st' = commandCount st \<and>
         buildLoop openf input st = buildLoop openf input st'"
proof -
  have lex: "outStop (processArgs (ws @ c # rest) bb buf lb lst) = SR_ERROR"
    "processed (processArgs (ws @ c # rest) bb buf lb lst) = length ws + 1"
    "outCount (processArgs (ws @ c # rest) bb buf lb lst) = 0"
    by (simp_all add: processArgs_leading_control [OF ws c] lexer_init_def)
  have "call_lexer input st =
          st\<lparr>inputPos := inputPos st + (length ws + 1), argChars := 0, argCount := 0,
             stopReason := SR_ERROR\<rparr>"
    by (simp add: call_lexer_def inp processArgs_leading_control [OF ws c] lexer_init_def)
  then have it: "iteration openf input st = Some st'"
    using normal by (simp add: iteration_def st'_def)
  have "stopReason st' \<noteq> SR_DONE"
    by (simp add: st'_def)
  with it have "buildLoop openf input st = buildLoop openf input st'"
    by (subst buildLoop.simps) simp
  with lex it show ?thesis
    by (simp add: st'_def)
qed

theorem leading_control_is_parse_error_witness:
  "iteration (\<lambda>n f fl. 3) ''a; ;b\<newline>''
     ((builder_init (\<lambda>_. NUL) (\<lambda>_. None))\<lparr>inputPos := 2\<rparr>)
   = Some ((builder_init (\<lambda>_. NUL) (\<lambda>_. None))
             \<lparr>inputPos := 4, stopReason := SR_ERROR, errs := [Unrecognized_command_input]\<rparr>)"
  using leading_control_is_parse_error
          [of "'' ''" "CHR '';''" "(builder_init (\<lambda>_. NUL) (\<lambda>_. None))\<lparr>inputPos := 2\<rparr>"
              "''a; ;b\<newline>''" "''b\<newline>''" 0 "\<lambda>_. NUL" 0 "\<lambda>_. None" "\<lambda>n f fl. 3"]
  by (simp add: builder_init_def ISWHITESPACE_def ISCONTROLCHAR_def)

text \<open>
  C6 as stated fails in a continuation: after \<^verbatim>\<open>&\<close> the test of line 285 lets the
  parse error through without a message and the \<^verbatim>\<open>switch\<close> closes the chain. On
  \<^verbatim>\<open>a & ; b\<close> the first pass ends at position 3 in a continuation, the lexer call
  of the second pass stops with \<open>SR_ERROR\<close>, and nothing is ever printed; two
  chains of one node are built.
\<close>

theorem parse_error_after_background_counterexample:
  "map_option (\<lambda>st. (inputPos st, continueLast st, stopReason (call_lexer ''a & ; b\<newline>'' st)))
     (iteration (\<lambda>n f fl. 3) ''a & ; b\<newline>'' (builder_init (\<lambda>_. NUL) (\<lambda>_. None)))
     = Some (3, True, SR_ERROR) \<and>
   map_option (\<lambda>st. (errs st, chainCount st, commandCount st))
     (buildCommandChains (\<lambda>n f fl. 3) ''a & ; b\<newline>'' (\<lambda>_. NUL) (\<lambda>_. None))
     = Some ([], 2, 2)"
  by code_simp

subsection \<open>The shape of the array of commands\<close>

text \<open>
  A chain in the array: the nodes from \<open>h\<close> to \<open>e\<close>, each linked to the node in
  the next slot, the last one with no successor and not piped.
\<close>

definition is_chain :: "command_t list \<Rightarrow> nat \<Rightarrow> nat \<Rightarrow> bool" where
  "is_chain cs h e =
     (h \<le> e \<and> e < length cs \<and> nextCom (cs ! e) = None \<and> \<not> piped (cs ! e) \<and>
      (\<forall>j. h \<le> j \<and> j < e \<longrightarrow> nextCom (cs ! j) = Some (Suc j)))"

text \<open>\<open>k\<close> chains one after the other fill the slots from \<open>h\<close> up to \<open>p\<close>.\<close>

fun chains_from :: "command_t list \<Rightarrow> nat \<Rightarrow> nat \<Rightarrow> nat \<Rightarrow> bool" where
  "chains_from cs h 0 p = (p = h)"
| "chains_from cs h (Suc k) p = (\<exists>e. is_chain cs h e \<and> chains_from cs (Suc e) k p)"

text \<open>
  The nodes from slot \<open>p\<close> on form the beginning of one chain: each is linked to
  the next slot, and the last node written has no successor yet.
\<close>

definition tail_ok :: "command_t list \<Rightarrow> nat \<Rightarrow> bool" where
  "tail_ok cs p =
     (p \<le> length cs \<and>
      (\<forall>j. p \<le> j \<and> Suc j < length cs \<longrightarrow> nextCom (cs ! j) = Some (Suc j)) \<and>
      (p < length cs \<longrightarrow> nextCom (last cs) = None))"

lemma is_chain_cong:
  assumes "is_chain cs h e" and "length cs \<le> length cs'" and "\<forall>i \<le> e. cs' ! i = cs ! i"
  shows "is_chain cs' h e"
  using assms by (auto simp: is_chain_def)

lemma chains_from_le: "chains_from cs h k p \<Longrightarrow> h \<le> p"
proof (induction k arbitrary: h)
  case 0
  then show ?case by simp
next
  case (Suc k)
  then obtain e where "is_chain cs h e" "chains_from cs (Suc e) k p" by auto
  with Suc.IH [of "Suc e"] show ?case by (simp add: is_chain_def)
qed

text \<open>
  A chain is determined by its head, so \<open>chains_from cs h k p\<close> determines \<open>p\<close>:
  it is \<open>h\<close> plus the number of nodes in the \<open>k\<close> chains.
\<close>

lemma is_chain_unique:
  assumes "is_chain cs h e" and "is_chain cs h e'"
  shows "e = e'"
proof (rule ccontr)
  assume "e \<noteq> e'"
  then consider "e < e'" | "e' < e" by linarith
  then show False
    using assms by cases (auto simp: is_chain_def)
qed

lemma chains_from_unique:
  assumes "chains_from cs h k p" and "chains_from cs h k p'"
  shows "p = p'"
  using assms
proof (induction k arbitrary: h)
  case 0
  then show ?case by simp
next
  case (Suc k)
  from Suc.prems(1) obtain e where e: "is_chain cs h e" "chains_from cs (Suc e) k p" by auto
  from Suc.prems(2) obtain e' where e': "is_chain cs h e'" "chains_from cs (Suc e') k p'" by auto
  from e(1) e'(1) have "e = e'" by (rule is_chain_unique)
  with e(2) e'(2) show ?case by (simp add: Suc.IH)
qed

lemma chains_from_cong:
  assumes "chains_from cs h k p" and "length cs \<le> length cs'" and "\<forall>i < p. cs' ! i = cs ! i"
  shows "chains_from cs' h k p"
  using assms
proof (induction k arbitrary: h)
  case 0
  then show ?case by simp
next
  case (Suc k)
  then obtain e where e: "is_chain cs h e" "chains_from cs (Suc e) k p" by auto
  then have "Suc e \<le> p" by (simp add: chains_from_le)
  then have "\<forall>i \<le> e. cs' ! i = cs ! i"
    using Suc.prems(3) by simp
  with e(1) Suc.prems(2) have "is_chain cs' h e"
    by (rule is_chain_cong)
  moreover have "chains_from cs' (Suc e) k p"
    using e(2) Suc.prems(2,3) by (rule Suc.IH)
  ultimately show ?case
    by (subst chains_from.simps) blast
qed

lemma chains_from_snoc:
  assumes "chains_from cs h k p" and "is_chain cs p e"
  shows "chains_from cs h (Suc k) (Suc e)"
  using assms
proof (induction k arbitrary: h)
  case 0
  then show ?case by simp
next
  case (Suc k)
  then obtain e' where e': "is_chain cs h e'" "chains_from cs (Suc e') k p" by auto
  from e'(2) Suc.prems(2) have "chains_from cs (Suc e') (Suc k) (Suc e)"
    by (rule Suc.IH)
  with e'(1) show ?case by (subst chains_from.simps) blast
qed

lemma tail_is_chain:
  assumes "tail_ok cs p" and "p < length cs" and "\<not> piped (last cs)"
  shows "is_chain cs p (length cs - 1)"
proof -
  from assms(2) have ne: "cs \<noteq> []" by auto
  then have "last cs = cs ! (length cs - 1)" by (rule last_conv_nth)
  moreover have "j < length cs - 1 \<Longrightarrow> Suc j < length cs" for j
    by simp
  ultimately show ?thesis
    using assms unfolding tail_ok_def is_chain_def by auto
qed


subsection \<open>Executing a chain of that shape\<close>

definition runnable :: "(nat \<Rightarrow> nat option) \<Rightarrow> command_t list \<Rightarrow> bool" where
  "runnable lst cs = (\<forall>i < length cs. lst (argList (cs ! i)) \<noteq> None)"

lemma single_no_fault:
  assumes "runnable lst cs" and "i < length cs"
  shows "\<exists>r tr. executeSingleCommand w buf lst cs i = (r, tr) \<and> r \<noteq> Fault"
  using assms
  by (auto simp: runnable_def executeSingleCommand_def node_at_def split: option.splits)

lemma child_code_no_fault: "r \<noteq> Fault \<Longrightarrow> \<exists>c. child_code r = Some c"
  by (cases r) simp_all

lemma pipeline_returns:
  assumes ch: "is_chain cs h e" and run: "runnable lst cs"
    and l: "h \<le> left" "left \<le> e"
  shows "\<exists>r tr. executePipedCommands w buf lst cs left (nextCom (cs ! left)) = Some (r, tr)
           \<and> r \<noteq> Fault"
  using l
proof (induction "e - left" arbitrary: left rule: less_induct)
  case less
  from ch less.prems have len: "left < length cs" by (simp add: is_chain_def)
  obtain r1 tr1 where single: "executeSingleCommand w buf lst cs left = (r1, tr1)" "r1 \<noteq> Fault"
    using single_no_fault [OF run len] by blast
  show ?case
  proof (cases "left = e")
    case True
    with ch have "nextCom (cs ! left) = None" by (simp add: is_chain_def)
    then show ?thesis
      using len single by (subst executePipedCommands.simps) (simp add: node_at_def)
  next
    case False
    with less.prems have lt: "left < e" by simp
    with ch less.prems have nx: "nextCom (cs ! left) = Some (Suc left)"
      by (simp add: is_chain_def)
    from lt ch have len': "Suc left < length cs" by (simp add: is_chain_def)
    have "e - Suc left < e - left" using lt by simp
    then obtain r2 tr2 where rec:
      "executePipedCommands w buf lst cs (Suc left) (nextCom (cs ! Suc left)) = Some (r2, tr2)"
      "r2 \<noteq> Fault"
      using less.hyps [of "Suc left"] less.prems lt by auto
    obtain c1 c2 where codes: "child_code r1 = Some c1" "child_code r2 = Some c2"
      using child_code_no_fault single(2) rec(2) by blast
    show ?thesis
      using len len' nx single rec codes
      by (subst executePipedCommands.simps) (simp add: node_at_def Let_def)
  qed
qed

lemma skip_piped_returns:
  assumes ch: "is_chain cs h e" and c: "h \<le> c" "c \<le> e"
  shows "\<exists>c'. skip_piped cs c k = Some (Returns (c', k + (c' - c))) \<and> c \<le> c' \<and> c' \<le> e
           \<and> \<not> piped (cs ! c')"
  using c
proof (induction "e - c" arbitrary: c k rule: less_induct)
  case less
  from ch less.prems have len: "c < length cs" by (simp add: is_chain_def)
  show ?case
  proof (cases "piped (cs ! c)")
    case False
    then show ?thesis
      using len less.prems by (subst skip_piped.simps) (simp add: node_at_def)
  next
    case True
    with ch have "c \<noteq> e" by (auto simp: is_chain_def)
    with less.prems have lt: "c < e" by simp
    with ch less.prems have nx: "nextCom (cs ! c) = Some (Suc c)"
      by (simp add: is_chain_def)
    have "e - Suc c < e - c" using lt by simp
    then obtain c' where c':
      "skip_piped cs (Suc c) (k + 1) = Some (Returns (c', k + 1 + (c' - Suc c)))"
      "Suc c \<le> c'" "c' \<le> e" "\<not> piped (cs ! c')"
      using less.hyps [of "Suc c" "k + 1"] less.prems lt by auto
    then have "skip_piped cs c k = Some (Returns (c', k + (c' - c)))"
      using True len nx by (subst skip_piped.simps) (simp add: node_at_def)
    with c' show ?thesis by auto
  qed
qed


lemma combine_fields: "count (combine n s) = count s" "chain (combine n s) = chain s"
  "launched (combine n s) = launched s"
  by (simp_all add: combine_def)

lemma walk_counts:
  assumes ch: "is_chain cs h e" and run: "runnable lst cs"
    and c: "h \<le> c" "c \<le> e" and s: "chain s = Some c"
  shows "\<exists>r tr. walk w buf lst cs s = Some (r, tr) \<and> r \<noteq> Fault \<and>
           (\<forall>a n. r = Returns (a, n) \<longrightarrow> n = count s + (Suc e - c))"
  using c s
proof (induction "e - c" arbitrary: c s rule: less_induct)
  case less
  note c = less.prems(1,2) and s = less.prems(3)
  from ch c have len: "c < length cs" by (simp add: is_chain_def)
  text \<open>The walk after the node at \<open>c'\<close> has been dealt with.\<close>
  have onward: "\<exists>r tr. walk w buf lst cs (advance (cs ! c') s') = Some (r, tr) \<and> r \<noteq> Fault \<and>
                  (\<forall>a n. r = Returns (a, n) \<longrightarrow> n = count s' + 1 + (e - c'))"
    if c': "c \<le> c'" "c' \<le> e" for c' s'
  proof (cases "c' = e")
    case True
    with ch have "nextCom (cs ! c') = None" by (simp add: is_chain_def)
    then show ?thesis
      using True by (subst walk.simps) (simp add: advance_def)
  next
    case False
    with c' have lt: "c' < e" by simp
    with ch c c' have nx: "nextCom (cs ! c') = Some (Suc c')"
      by (simp add: is_chain_def)
    have "e - Suc c' < e - c" using lt c' by simp
    moreover have "h \<le> Suc c'" "Suc c' \<le> e" using c c' lt by simp_all
    moreover have "chain (advance (cs ! c') s') = Some (Suc c')"
      using nx by (simp add: advance_def)
    ultimately obtain r tr where
      "walk w buf lst cs (advance (cs ! c') s') = Some (r, tr)" "r \<noteq> Fault"
      "\<forall>a n. r = Returns (a, n) \<longrightarrow> n = count (advance (cs ! c') s') + (Suc e - Suc c')"
      using less.hyps [of "Suc c'" "advance (cs ! c') s'"] by blast
    then show ?thesis
      using lt by (auto simp: advance_def)
  qed
  show ?case
  proof (cases "stopped s \<noteq> 0")
    case True
    obtain r tr where "walk w buf lst cs (advance (cs ! c) s) = Some (r, tr)" "r \<noteq> Fault"
      "\<forall>a n. r = Returns (a, n) \<longrightarrow> n = count s + 1 + (e - c)"
      using onward [of c s] c by blast
    moreover have "walk w buf lst cs s = walk w buf lst cs (advance (cs ! c) s)"
      using True len s by (subst walk.simps) (simp add: node_at_def)
    ultimately show ?thesis
      using c by auto
  next
    case run_it: False
    show ?thesis
    proof (cases "piped (cs ! c)")
      case False
      obtain r1 tr1 where single: "executeSingleCommand w buf lst cs c = (r1, tr1)" "r1 \<noteq> Fault"
        using single_no_fault [OF run len] by blast
      show ?thesis
      proof (cases r1)
        case Fault
        with single show ?thesis by simp
      next
        case (Exits code)
        then show ?thesis
          using run_it False len s single
          by (subst walk.simps) (simp add: node_at_def Let_def)
      next
        case (Returns v)
        define s' where "s' = combine (cs ! c) (s\<lparr>status := v, launched := launched s @ tr1\<rparr>)"
        obtain r tr where "walk w buf lst cs (advance (cs ! c) s') = Some (r, tr)" "r \<noteq> Fault"
          "\<forall>a n. r = Returns (a, n) \<longrightarrow> n = count s' + 1 + (e - c)"
          using onward [of c s'] c by blast
        moreover have "walk w buf lst cs s = walk w buf lst cs (advance (cs ! c) s')"
          using run_it False len s single Returns
          by (subst walk.simps) (simp add: node_at_def Let_def s'_def)
        moreover have "count s' = count s"
          by (simp add: s'_def combine_fields)
        ultimately show ?thesis
          using c by auto
      qed
    next
      case True
      obtain r1 tr1 where pipe:
        "executePipedCommands w buf lst cs c (nextCom (cs ! c)) = Some (r1, tr1)" "r1 \<noteq> Fault"
        using pipeline_returns [OF ch run c] by blast
      obtain c' where skip:
        "skip_piped cs c (count s) = Some (Returns (c', count s + (c' - c)))"
        "c \<le> c'" "c' \<le> e" "\<not> piped (cs ! c')"
        using skip_piped_returns [OF ch c] by blast
      from ch skip(3) have len': "c' < length cs" by (simp add: is_chain_def)
      show ?thesis
      proof (cases r1)
        case Fault
        with pipe show ?thesis by simp
      next
        case (Exits code)
        then show ?thesis
          using run_it True len s pipe
          by (subst walk.simps) (simp add: node_at_def)
      next
        case (Returns v)
        define s' where "s' = combine (cs ! c')
            (s\<lparr>status := v, chain := Some c', count := count s + (c' - c),
               launched := launched s @ tr1\<rparr>)"
        obtain r tr where "walk w buf lst cs (advance (cs ! c') s') = Some (r, tr)" "r \<noteq> Fault"
          "\<forall>a n. r = Returns (a, n) \<longrightarrow> n = count s' + 1 + (e - c')"
          using onward [of c' s'] skip by blast
        moreover have "walk w buf lst cs s = walk w buf lst cs (advance (cs ! c') s')"
          using run_it True len len' s pipe skip(1) Returns
          by (subst walk.simps) (simp add: node_at_def s'_def)
        moreover have "count s' = count s + (c' - c)"
          by (simp add: s'_def combine_fields)
        ultimately show ?thesis
          using c skip by auto
      qed
    qed
  qed
qed

lemma run_chains_counts:
  assumes "chains_from cs h k p" and run: "runnable lst cs"
  shows "\<exists>r tr. run_chains w buf lst cs k h tr0 = Some (r, tr) \<and> r \<noteq> Fault \<and>
           (\<forall>n. r = Returns n \<longrightarrow> n = p)"
  using assms(1)
proof (induction k arbitrary: h tr0)
  case 0
  then show ?case by simp
next
  case (Suc k)
  then obtain e where e: "is_chain cs h e" "chains_from cs (Suc e) k p" by auto
  then have he: "h \<le> e" by (simp add: is_chain_def)
  obtain r tr where w: "executeCommandChain w buf lst cs h = Some (r, tr)" "r \<noteq> Fault"
    "\<forall>a n. r = Returns (a, n) \<longrightarrow> n = Suc e - h"
    unfolding executeCommandChain_def
    using walk_counts [OF e(1) run order_refl he, where s = "\<lparr>chain = Some h, stopped = 0,
        status = 0, allStatus = stack_garbage w h, count = 0, launched = []\<rparr>" and w = w and buf = buf]
    by auto
  show ?case
  proof (cases r)
    case Fault
    with w show ?thesis by simp
  next
    case (Exits code)
    with w show ?thesis by simp
  next
    case (Returns an)
    obtain a n where an: "an = (a, n)" by (cases an)
    with Returns w(3) have n: "h + n = Suc e" using he by simp
    obtain r' tr' where "run_chains w buf lst cs k (Suc e) (tr0 @ tr) = Some (r', tr')"
      "r' \<noteq> Fault" "\<forall>n. r' = Returns n \<longrightarrow> n = p"
      using Suc.IH [OF e(2)] by blast
    then show ?thesis
      using w(1) Returns an n by simp
  qed
qed


subsection \<open>What the builder maintains\<close>

text \<open>
  \<open>shape st p\<close>: the first \<open>p\<close> slots hold \<^verbatim>\<open>chainCount\<close> complete chains, the slots
  from \<open>p\<close> on hold the beginning of the chain under construction, and \<^verbatim>\<open>com\<close>
  points at the last node written. \<open>pending\<close> is the state in which the
  \<^verbatim>\<open>switch\<close> is entered and in which the builder waits for a file name or for
  the continuation after \<^verbatim>\<open>&\<close>; \<open>settled\<close> is the state in which the next
  segment starts a command.
\<close>

definition shape :: "builder \<Rightarrow> nat \<Rightarrow> bool" where
  "shape st p =
     (length (chains st) = commandCount st \<and>
      com st = (if commandCount st = 0 then None else Some (commandCount st - 1)) \<and>
      chains_from (chains st) 0 (chainCount st) p \<and> tail_ok (chains st) p)"

definition pending :: "builder \<Rightarrow> nat \<Rightarrow> bool" where
  "pending st p = (shape st p \<and> p < commandCount st \<and> \<not> piped (last (chains st)))"

definition settled :: "builder \<Rightarrow> nat \<Rightarrow> bool" where
  "settled st p =
     (shape st p \<and>
      (lastCom st = None \<longrightarrow> p = commandCount st) \<and>
      (\<forall>l. lastCom st = Some l \<longrightarrow> p < commandCount st \<and> Suc l = commandCount st))"

definition args_ok :: "builder \<Rightarrow> bool" where
  "args_ok st =
     (\<forall>a \<in> set (map argList (chains st)). a < argTotal st \<and> argListMem st a \<noteq> None)"


lemma tail_ok_update:
  assumes "tail_ok cs p" and "nextCom x = nextCom (cs ! i)"
  shows "tail_ok (cs[i := x]) p"
proof -
  have nx: "nextCom (cs[i := x] ! j) = nextCom (cs ! j)" if "j < length cs" for j
    using assms(2) that by (cases "j = i") simp_all
  from assms(1) have a: "p \<le> length cs"
    "\<And>j. p \<le> j \<Longrightarrow> Suc j < length cs \<Longrightarrow> nextCom (cs ! j) = Some (Suc j)"
    "p < length cs \<Longrightarrow> nextCom (last cs) = None"
    by (simp_all add: tail_ok_def)
  show ?thesis
    unfolding tail_ok_def
  proof (intro conjI allI impI)
    show "p \<le> length (cs[i := x])" using a(1) by simp
  next
    fix j
    assume "p \<le> j \<and> Suc j < length (cs[i := x])"
    then show "nextCom (cs[i := x] ! j) = Some (Suc j)"
      using a(2) [of j] nx [of j] by simp
  next
    assume "p < length (cs[i := x])"
    then have lt: "p < length cs" by simp
    then have "cs \<noteq> []" by auto
    then have "last (cs[i := x]) = cs[i := x] ! (length cs - 1)" "last cs = cs ! (length cs - 1)"
      by (simp_all add: last_conv_nth)
    then show "nextCom (last (cs[i := x])) = None"
      using a(3) [OF lt] nx [of "length cs - 1"] lt by simp
  qed
qed

lemma chains_from_update:
  assumes "chains_from cs 0 k p" and "p \<le> i"
  shows "chains_from (cs[i := x]) 0 k p"
proof (rule chains_from_cong [OF assms(1)])
  show "length cs \<le> length (cs[i := x])" by simp
  show "\<forall>j < p. cs[i := x] ! j = cs ! j"
  proof (intro allI impI)
    fix j
    assume "j < p"
    with assms(2) have "i \<noteq> j" by simp
    then show "cs[i := x] ! j = cs ! j" by simp
  qed
qed

lemma shape_set_node:
  assumes "shape st p" and "p < commandCount st"
    and "nextCom (f (chains st ! (commandCount st - 1))) = nextCom (chains st ! (commandCount st - 1))"
  shows "shape (set_node (commandCount st - 1) f st) p"
  using assms
  by (simp add: shape_def set_node_def tail_ok_update chains_from_update)

lemma last_set_node:
  assumes "shape st p" and "p < commandCount st"
  shows "last (chains (set_node (commandCount st - 1) f st)) = f (last (chains st))"
proof -
  from assms have ne: "chains st \<noteq> []" and len: "length (chains st) = commandCount st"
    by (auto simp: shape_def)
  moreover from assms have "commandCount st - 1 < length (chains st)"
    by (simp add: shape_def)
  ultimately show ?thesis
    by (simp add: set_node_def last_conv_nth)
qed

lemma shape_close:
  assumes "pending st p"
  shows "shape (st\<lparr>chainCount := chainCount st + 1, lastCom := None\<rparr>) (commandCount st)"
proof -
  from assms have sh: "shape st p" and lt: "p < commandCount st"
    and np: "\<not> piped (last (chains st))"
    by (simp_all add: pending_def)
  then have len: "length (chains st) = commandCount st"
    and cf: "chains_from (chains st) 0 (chainCount st) p" and tl: "tail_ok (chains st) p"
    by (simp_all add: shape_def)
  have "is_chain (chains st) p (length (chains st) - 1)"
    using tl lt np len by (intro tail_is_chain) simp_all
  with cf have "chains_from (chains st) 0 (Suc (chainCount st)) (Suc (length (chains st) - 1))"
    by (rule chains_from_snoc)
  moreover have "Suc (length (chains st) - 1) = commandCount st"
    using lt len by simp
  moreover have "tail_ok (chains st) (commandCount st)"
    using len by (auto simp: tail_ok_def)
  ultimately show ?thesis
    using sh by (simp add: shape_def)
qed

definition resting :: "builder \<Rightarrow> bool" where
  "resting st =
     (\<not> (continueLast st \<and> getFd st \<noteq> None) \<and>
      (\<exists>p. if continueLast st \<or> getFd st \<noteq> None then pending st p else settled st p))"

lemma react_pending:
  assumes pd: "pending st p" and fd: "getFd st = None" and cl: "\<not> continueLast st"
  shows "\<exists>st'. react st = Some st' \<and> resting st' \<and>
           argTotal st' = argTotal st \<and> argListMem st' = argListMem st \<and>
           map argList (chains st') = map argList (chains st)"
proof -
  from pd have sh: "shape st p" and lt: "p < commandCount st"
    and np: "\<not> piped (last (chains st))"
    by (simp_all add: pending_def)
  define i where "i = commandCount st - 1"
  from sh lt have cm: "com st = Some i" and len: "length (chains st) = commandCount st"
    by (simp_all add: shape_def i_def)
  have flag: "settled ((set_node i f st)\<lparr>lastCom := Some i\<rparr>) p"
    if "\<And>n. nextCom (f n) = nextCom n" for f
    using shape_set_node [OF sh lt, of f] that lt
    by (simp add: settled_def shape_def i_def set_node_def)
  have args: "map argList (chains (set_node i f st)) = map argList (chains st)"
    if "\<And>n. argList (f n) = argList n" for f
    using that by (simp add: set_node_def map_update_same)
  show ?thesis
  proof (cases "stopReason st")
    case SR_SEQ_AND
    then show ?thesis
      using cm fd cl flag [of "\<lambda>n. n\<lparr>stopOnFailure := True\<rparr>"]
        args [of "\<lambda>n. n\<lparr>stopOnFailure := True\<rparr>"]
      by (simp add: react_def with_com_def resting_def) (auto simp: set_node_def)
  next
    case SR_SEQ_OR
    then show ?thesis
      using cm fd cl flag [of "\<lambda>n. n\<lparr>stopOnSuccess := True\<rparr>"]
        args [of "\<lambda>n. n\<lparr>stopOnSuccess := True\<rparr>"]
      by (simp add: react_def with_com_def resting_def) (auto simp: set_node_def)
  next
    case SR_PIPE
    then show ?thesis
      using cm fd cl flag [of "\<lambda>n. n\<lparr>piped := True, stopOnFailure := True\<rparr>"]
        args [of "\<lambda>n. n\<lparr>piped := True, stopOnFailure := True\<rparr>"]
      by (simp add: react_def with_com_def resting_def) (auto simp: set_node_def)
  next
    case SR_REDIRECT_IN
    then show ?thesis
      using cm cl pd by (auto simp: react_def with_com_def resting_def pending_def shape_def)
  next
    case SR_REDIRECT_OUT
    then show ?thesis
      using cm cl pd by (auto simp: react_def with_com_def resting_def pending_def shape_def)
  next
    case SR_REDIRECT_OUT_APPEND
    then show ?thesis
      using cm cl pd by (auto simp: react_def with_com_def resting_def pending_def shape_def)
  next
    case SR_BACKGROUND
    have "pending ((set_node i (\<lambda>n. n\<lparr>background := True\<rparr>) st)\<lparr>continueLast := True\<rparr>) p"
      using shape_set_node [OF sh lt, of "\<lambda>n. n\<lparr>background := True\<rparr>"]
        last_set_node [OF sh lt, of "\<lambda>n. n\<lparr>background := True\<rparr>"] lt np
      by (simp add: pending_def shape_def i_def set_node_def)
    then show ?thesis
      using SR_BACKGROUND cm fd args [of "\<lambda>n. n\<lparr>background := True\<rparr>"]
      by (simp add: react_def with_com_def resting_def) (auto simp: set_node_def)
  next
    case SR_DONE
    then show ?thesis
      using shape_close [OF pd] fd cl
      by (auto simp: react_def resting_def settled_def)
  next
    case SR_ERROR
    then show ?thesis
      using shape_close [OF pd] fd cl
      by (auto simp: react_def resting_def settled_def)
  next
    case SR_SEQ_CHAIN
    then show ?thesis
      using shape_close [OF pd] fd cl
      by (auto simp: react_def resting_def settled_def)
  next
    case SR_REDIRECT_IN_HERE
    then show ?thesis
      using shape_close [OF pd] fd cl
      by (auto simp: react_def resting_def settled_def)
  qed
qed


lemma new_command_fields:
  "argTotal (new_command st) = argTotal st" "argListMem (new_command st) = argListMem st"
  "getFd (new_command st) = getFd st" "continueLast (new_command st) = continueLast st"
  "argCount (new_command st) = argCount st" "argChars (new_command st) = argChars st"
  "argCharsTotal (new_command st) = argCharsTotal st"
  "chainCount (new_command st) = chainCount st"
  "commandCount (new_command st) = commandCount st + 1"
  "com (new_command st) = Some (commandCount st)"
  "length (chains (new_command st)) = length (chains st) + 1"
  by (simp_all add: new_command_def Let_def split: option.split)

lemma map_argList_new_command:
  "map argList (chains (new_command st)) = map argList (chains st) @ [argTotal st]"
  by (cases "lastCom st") (simp_all add: new_command_def Let_def map_update_same)

lemma new_command_pending:
  assumes "settled st p"
  shows "pending (new_command st) p"
proof -
  define node where "node = \<lparr>argList = argTotal st, fdIn = 0, fdOut = 1,
      stopOnFailure = False, stopOnSuccess = False, piped = False,
      background = False, nextCom = None\<rparr>"
  define cs where "cs = chains st"
  from assms have len: "length cs = commandCount st"
    and cf: "chains_from cs 0 (chainCount st) p" and tl: "tail_ok cs p"
    by (simp_all add: settled_def shape_def cs_def)
  from tl have t: "p \<le> length cs"
    "\<And>j. p \<le> j \<Longrightarrow> Suc j < length cs \<Longrightarrow> nextCom (cs ! j) = Some (Suc j)"
    by (simp_all add: tail_ok_def)
  define cs' where "cs' = chains (new_command st)"
  have goal: "chains_from cs' 0 (chainCount st) p \<and> tail_ok cs' p \<and> \<not> piped (last cs') \<and>
              length cs' = length cs + 1"
  proof (cases "lastCom st")
    case None
    with assms have p: "p = length cs" by (simp add: settled_def len)
    have cs': "cs' = cs @ [node]"
      using None by (simp add: cs'_def new_command_def Let_def node_def cs_def)
    have "chains_from cs' 0 (chainCount st) p"
      using cf by (rule chains_from_cong) (simp_all add: cs' p nth_append)
    moreover have "tail_ok cs' p"
      by (auto simp: tail_ok_def cs' p node_def)
    ultimately show ?thesis by (simp add: cs' node_def)
  next
    case (Some l)
    with assms have l: "p < length cs" "Suc l = length cs" by (simp_all add: settled_def len)
    have cs': "cs' = (cs @ [node])[l := ((cs @ [node]) ! l)\<lparr>nextCom := Some (length cs)\<rparr>]"
      using Some len by (simp add: cs'_def new_command_def Let_def node_def cs_def)
    have nth: "cs' ! j = cs ! j" if "j < l" for j
      using that l by (simp add: cs' nth_append)
    have nl: "nextCom (cs' ! l) = Some (Suc l)"
      using l by (simp add: cs')
    have lst: "last cs' = node"
      using l by (simp add: cs' last_conv_nth nth_append)
    have "chains_from cs' 0 (chainCount st) p"
      using cf
    proof (rule chains_from_cong)
      show "length cs \<le> length cs'" by (simp add: cs')
      show "\<forall>i < p. cs' ! i = cs ! i" using nth l by simp
    qed
    moreover have "tail_ok cs' p"
      unfolding tail_ok_def
    proof (intro conjI allI impI)
      show "p \<le> length cs'" using l by (simp add: cs')
    next
      fix j
      assume j: "p \<le> j \<and> Suc j < length cs'"
      then have "j \<le> l" using l by (simp add: cs')
      then show "nextCom (cs' ! j) = Some (Suc j)"
      proof (cases "j = l")
        case True
        with nl show ?thesis by simp
      next
        case False
        with \<open>j \<le> l\<close> have "j < l" by simp
        with nth [of j] t(2) [of j] j l show ?thesis by simp
      qed
    next
      show "nextCom (last cs') = None" by (simp add: lst node_def)
    qed
    ultimately show ?thesis by (simp add: lst node_def) (simp add: cs')
  qed
  with len t(1) show ?thesis
    by (simp add: pending_def shape_def new_command_fields cs'_def [symmetric] cs_def [symmetric])
qed


subsection \<open>The lexer and the argument list\<close>

lemma processArgs_below:
  assumes "j < lb"
  shows "outList (processArgs input bb buf lb lst) j = lst j"
  using scan_extends [of bb lb "lexer_init buf lst" input] assms
  by (simp add: extends_def processArgs_def Let_def lexer_init_def)

lemma scan_first_pointer:
  "(0 < outCount s \<longrightarrow> outList s lb \<noteq> None) \<longrightarrow>
   (0 < outCount (scan bb lb s cs) \<longrightarrow> outList (scan bb lb s cs) lb \<noteq> None)"
  by (rule scan_result_induct
        [where P = "\<lambda>s t. (0 < outCount s \<longrightarrow> outList s lb \<noteq> None) \<longrightarrow>
                           (0 < outCount t \<longrightarrow> outList t lb \<noteq> None)"])
     (auto simp: flush_def)

lemma processArgs_first_pointer:
  assumes "0 < outCount (processArgs input bb buf lb lst)"
  shows "outList (processArgs input bb buf lb lst) lb \<noteq> None"
  using scan_first_pointer [of "lexer_init buf lst" lb bb input] assms
  by (simp add: processArgs_def Let_def lexer_init_def)

lemma call_lexer_shape:
  "pending (call_lexer input st) p = pending st p"
  "settled (call_lexer input st) p = settled st p"
  "resting (call_lexer input st) = resting st"
  by (simp_all add: pending_def settled_def resting_def shape_def call_lexer_fields)

lemma call_lexer_args_ok:
  assumes "args_ok st"
  shows "args_ok (call_lexer input st)"
  using assms
  by (simp add: args_ok_def call_lexer_fields)
     (simp add: call_lexer_def Let_def processArgs_below)

lemma call_lexer_new_pointer:
  assumes "0 < argCount (call_lexer input st)"
  shows "argListMem (call_lexer input st) (argTotal st) \<noteq> None"
  using assms processArgs_first_pointer
  by (simp add: call_lexer_def Let_def)


subsection \<open>Storing a descriptor\<close>

lemma is_chain_update_same:
  assumes "is_chain cs h e" and "nextCom x = nextCom (cs ! i)" and "piped x = piped (cs ! i)"
  shows "is_chain (cs[i := x]) h e"
proof -
  have same: "nextCom (cs[i := x] ! j) = nextCom (cs ! j) \<and> piped (cs[i := x] ! j) = piped (cs ! j)"
    if "j < length cs" for j
    using assms(2,3) that by (cases "j = i") simp_all
  from assms(1) have e: "e < length cs" by (simp add: is_chain_def)
  then have "j < e \<Longrightarrow> j < length cs" for j by simp
  with assms(1) e same show ?thesis
    unfolding is_chain_def by auto
qed

lemma chains_from_update_same:
  assumes "chains_from cs h k p" and "nextCom x = nextCom (cs ! i)" and "piped x = piped (cs ! i)"
  shows "chains_from (cs[i := x]) h k p"
  using assms(1)
proof (induction k arbitrary: h)
  case 0
  then show ?case by simp
next
  case (Suc k)
  then obtain e where e: "is_chain cs h e" "chains_from cs (Suc e) k p" by auto
  from e(1) assms(2,3) have "is_chain (cs[i := x]) h e"
    by (rule is_chain_update_same)
  moreover from e(2) have "chains_from (cs[i := x]) (Suc e) k p"
    by (rule Suc.IH)
  ultimately show ?case
    by (subst chains_from.simps) blast
qed

lemma piped_last_update:
  assumes "piped x = piped (cs ! i)"
  shows "piped (last (cs[i := x])) = piped (last cs)"
proof (cases "cs = []")
  case True
  then show ?thesis by simp
next
  case False
  then have "length cs - 1 < length cs" by simp
  then have "piped (cs[i := x] ! (length cs - 1)) = piped (cs ! (length cs - 1))"
    using assms by (cases "length cs - 1 = i") simp_all
  with False show ?thesis by (simp add: last_conv_nth)
qed

lemma store_fd_shape:
  assumes "pending st p"
  shows "pending (store_fd pf fd st) p"
proof -
  obtain i fld where pf: "pf = (i, fld)" by (cases pf)
  define f :: "command_t \<Rightarrow> command_t" where "f = (\<lambda>n. case fld of FdIn \<Rightarrow> n\<lparr>fdIn := fd\<rparr> | FdOut \<Rightarrow> n\<lparr>fdOut := fd\<rparr>)"
  have f: "nextCom (f n) = nextCom n" "piped (f n) = piped n" for n
    by (simp_all add: f_def split: fd_field.split)
  have eq: "store_fd pf fd st = set_node i f st"
    by (simp add: store_fd_def pf f_def split: fd_field.split)
  from assms show ?thesis
    unfolding eq
    by (simp add: pending_def shape_def set_node_def f chains_from_update_same tail_ok_update
          piped_last_update)
qed

lemma store_fd_fields:
  "argTotal (store_fd pf fd st) = argTotal st" "argListMem (store_fd pf fd st) = argListMem st"
  "getFd (store_fd pf fd st) = getFd st" "continueLast (store_fd pf fd st) = continueLast st"
  "map argList (chains (store_fd pf fd st)) = map argList (chains st)"
  by (cases pf; cases "snd pf"; simp add: store_fd_def set_node_def map_update_same)+


subsection \<open>One pass keeps the shape\<close>

lemma args_ok_cong:
  assumes "args_ok st" and "argTotal st \<le> argTotal st'" and "argListMem st' = argListMem st"
    and "map argList (chains st') = map argList (chains st)"
  shows "args_ok st'"
  using assms unfolding args_ok_def by fastforce

lemma pending_cong:
  assumes "pending st p" and "chains st' = chains st" and "commandCount st' = commandCount st"
    and "com st' = com st" and "chainCount st' = chainCount st"
  shows "pending st' p"
  using assms by (simp add: pending_def shape_def)

lemma iteration_keeps_shape:
  assumes ok: "args_ok st" and rest: "resting st"
  shows "\<exists>st'. iteration openf input st = Some st' \<and> args_ok st' \<and> resting st'"
proof -
  define st1 where "st1 = call_lexer input st"
  have ok1: "args_ok st1" and rest1: "resting st1"
    using ok rest by (simp_all add: st1_def call_lexer_args_ok call_lexer_shape)
  have f1: "getFd st1 = getFd st" "continueLast st1 = continueLast st" "argTotal st1 = argTotal st"
    by (simp_all add: st1_def call_lexer_fields)
  show ?thesis
  proof (cases "getFd st")
    case (Some pf)
    with rest1 f1 obtain p where pd: "pending st1 p" and ncl: "\<not> continueLast st1"
      by (auto simp: resting_def)
    show ?thesis
    proof (cases "stopReason st1 = SR_ERROR \<or> argCount st1 \<noteq> 1")
      case True
      define st' where "st' = st1\<lparr>errs := errs st1 @ [Error_reading_filename_for_redirect]\<rparr>"
      have "iteration openf input st = Some st'"
        using Some True by (simp add: iteration_def st1_def [symmetric] st'_def)
      moreover have "args_ok st'"
        using ok1 by (rule args_ok_cong) (simp_all add: st'_def)
      moreover have "pending st' p"
        using pd by (rule pending_cong) (simp_all add: st'_def)
      then have "resting st'"
        using ncl f1 Some by (auto simp: resting_def st'_def)
      ultimately show ?thesis by blast
    next
      case False
      define filename where "filename = (case argListMem st1 (argTotal st1) of
                                None \<Rightarrow> [] | Some a \<Rightarrow> cstr (argBuffer st1) a)"
      define st2 where "st2 = st1\<lparr>argCharsTotal := argCharsTotal st1 + argChars st1,
                            argTotal := argTotal st1 + (argCount st1 + 1)\<rparr>"
      define fd where "fd = openf (opens st2) filename (oflags st2)"
      define st3 where "st3 = (store_fd pf fd st2)\<lparr>opens := opens st2 + 1\<rparr>"
      have it: "iteration openf input st =
                  (if fd < 0
                   then Some (st3\<lparr>errs := errs st3 @ [Error_opening_file_for_redirect filename]\<rparr>)
                   else react (st3\<lparr>getFd := None\<rparr>))"
        using Some False
        by (simp add: iteration_def st1_def [symmetric] Let_def filename_def st2_def fd_def st3_def)
      have pd2: "pending st2 p"
        using pd by (rule pending_cong) (simp_all add: st2_def)
      have ok2: "args_ok st2"
        using ok1 by (rule args_ok_cong) (simp_all add: st2_def)
      have pd3: "pending st3 p"
        using store_fd_shape [OF pd2, of pf fd]
        by (rule pending_cong) (simp_all add: st3_def)
      have ok3: "args_ok st3"
        using ok2 by (rule args_ok_cong) (simp_all add: st3_def store_fd_fields)
      have f3: "getFd st3 = Some pf" "\<not> continueLast st3"
        using Some ncl f1 by (simp_all add: st3_def store_fd_fields st2_def)
      show ?thesis
      proof (cases "fd < 0")
        case True
        define st' where "st' = st3\<lparr>errs := errs st3 @ [Error_opening_file_for_redirect filename]\<rparr>"
        have "args_ok st'"
          using ok3 by (rule args_ok_cong) (simp_all add: st'_def)
        moreover have "pending st' p"
          using pd3 by (rule pending_cong) (simp_all add: st'_def)
        then have "resting st'"
          using f3 by (auto simp: resting_def st'_def)
        ultimately show ?thesis
          using it True by (simp add: st'_def)
      next
        case False
        have "pending (st3\<lparr>getFd := None\<rparr>) p"
          using pd3 by (rule pending_cong) simp_all
        then obtain st' where r: "react (st3\<lparr>getFd := None\<rparr>) = Some st'" "resting st'"
          "argTotal st' = argTotal (st3\<lparr>getFd := None\<rparr>)"
          "argListMem st' = argListMem (st3\<lparr>getFd := None\<rparr>)"
          "map argList (chains st') = map argList (chains (st3\<lparr>getFd := None\<rparr>))"
          using react_pending [of "st3\<lparr>getFd := None\<rparr>" p] f3 by auto
        have "args_ok st'"
          using ok3 by (rule args_ok_cong) (simp_all add: r)
        with r(1,2) it False show ?thesis by simp
      qed
    qed
  next
    case None
    show ?thesis
    proof (cases "continueLast st")
      case True
      with rest1 f1 obtain p where pd: "pending st1 p"
        by (auto simp: resting_def)
      define st2 where "st2 = st1\<lparr>argCharsTotal := argCharsTotal st1 + argChars st1,
          argTotal := argTotal st1 + (argCount st1 + 1), continueLast := False\<rparr>"
      have it: "iteration openf input st = react st2"
        using None True f1
        by (simp add: iteration_def st1_def [symmetric] Let_def st2_def)
      have "pending st2 p"
        using pd by (rule pending_cong) (simp_all add: st2_def)
      then obtain st' where r: "react st2 = Some st'" "resting st'"
        "argTotal st' = argTotal st2" "argListMem st' = argListMem st2"
        "map argList (chains st') = map argList (chains st2)"
        using react_pending [of st2 p] None f1 by (auto simp: st2_def)
      have "args_ok st2"
        using ok1 by (rule args_ok_cong) (simp_all add: st2_def)
      then have "args_ok st'"
        by (rule args_ok_cong) (simp_all add: r)
      with r(1,2) it show ?thesis by simp
    next
      case False
      with rest1 f1 None obtain p where sd: "settled st1 p"
        by (auto simp: resting_def)
      show ?thesis
      proof (cases "stopReason st1 = SR_ERROR")
        case True
        define st' where "st' = st1\<lparr>errs := errs st1 @ [Unrecognized_command_input]\<rparr>"
        have "iteration openf input st = Some st'"
          using None False True f1 by (simp add: iteration_def st1_def [symmetric] st'_def)
        moreover have "args_ok st'"
          using ok1 by (rule args_ok_cong) (simp_all add: st'_def)
        moreover have "resting st'"
          using sd False None f1
          by (auto simp: resting_def st'_def settled_def shape_def)
        ultimately show ?thesis by blast
      next
        case ne: False
        show ?thesis
        proof (cases "argCount st1 = 0")
          case True
          have "iteration openf input st = Some st1"
            using None False ne True f1 by (simp add: iteration_def st1_def [symmetric])
          with ok1 rest1 show ?thesis by blast
        next
          case args: False
          define st2 where "st2 = (new_command st1)
             \<lparr>argCharsTotal := argCharsTotal (new_command st1) + argChars (new_command st1),
              argTotal := argTotal (new_command st1) + (argCount (new_command st1) + 1),
              continueLast := False\<rparr>"
          have it: "iteration openf input st = react st2"
            using None False ne args f1
            by (simp add: iteration_def st1_def [symmetric] Let_def st2_def)
          have "pending (new_command st1) p"
            using sd by (rule new_command_pending)
          then have "pending st2 p"
            by (rule pending_cong) (simp_all add: st2_def)
          then obtain st' where r: "react st2 = Some st'" "resting st'"
            "argTotal st' = argTotal st2" "argListMem st' = argListMem st2"
            "map argList (chains st') = map argList (chains st2)"
            using react_pending [of st2 p] None f1
            by (auto simp: st2_def new_command_fields)
          have "0 < argCount (call_lexer input st)"
            using args by (simp add: st1_def)
          then have "argListMem (call_lexer input st) (argTotal st) \<noteq> None"
            by (rule call_lexer_new_pointer)
          then have "argListMem st1 (argTotal st1) \<noteq> None"
            unfolding st1_def by (simp add: call_lexer_fields)
          with ok1 have "args_ok st2"
            by (auto simp: args_ok_def st2_def new_command_fields map_argList_new_command)
          then have "args_ok st'"
            by (rule args_ok_cong) (simp_all add: r)
          with r(1,2) it show ?thesis by simp
        qed
      qed
    qed
  qed
qed


lemma buildLoop_keeps_shape:
  assumes "args_ok st" and "resting st"
  shows "\<exists>st'. buildLoop openf input st = Some st' \<and> args_ok st' \<and> resting st'"
  using assms
proof (induction openf input st rule: buildLoop.induct)
  case (1 openf input st)
  obtain st1 where it: "iteration openf input st = Some st1" and st1: "args_ok st1" "resting st1"
    using iteration_keeps_shape [OF "1.prems"] by blast
  show ?case
  proof (cases "stopReason st1 = SR_DONE")
    case True
    with it st1 show ?thesis
      by (subst buildLoop.simps) simp
  next
    case False
    obtain st' where "buildLoop openf input st1 = Some st'" "args_ok st'" "resting st'"
      using "1.IH" [OF it False st1] by blast
    with it False show ?thesis
      by (subst buildLoop.simps) simp
  qed
qed

lemma builder_init_shape: "args_ok (builder_init buf lst)" "resting (builder_init buf lst)"
  by (simp_all add: args_ok_def resting_def settled_def shape_def tail_ok_def builder_init_def)

lemma buildCommandChains_shape:
  "\<exists>st. buildCommandChains openf input buf lst = Some st \<and> args_ok st \<and> resting st"
  unfolding buildCommandChains_def
  by (rule buildLoop_keeps_shape) (rule builder_init_shape)+

lemma closed_node_links:
  assumes "chains_from cs h k p" and "h \<le> i" and "i < p"
  shows "nextCom (cs ! i) = Some (Suc i) \<and> Suc i < p \<or> nextCom (cs ! i) = None \<and> \<not> piped (cs ! i)"
  using assms
proof (induction k arbitrary: h)
  case 0
  then show ?case by simp
next
  case (Suc k)
  then obtain e where e: "is_chain cs h e" "chains_from cs (Suc e) k p" by auto
  then have ep: "Suc e \<le> p" by (simp add: chains_from_le)
  show ?case
  proof (cases "i \<le> e")
    case True
    show ?thesis
    proof (cases "i = e")
      case True
      with e(1) show ?thesis by (simp add: is_chain_def)
    next
      case False
      with True have "i < e" by simp
      with e(1) Suc.prems(2) ep show ?thesis by (simp add: is_chain_def)
    qed
  next
    case False
    then have "Suc e \<le> i" by simp
    with e(2) Suc.prems(3) show ?thesis by (intro Suc.IH)
  qed
qed

lemma args_ok_runnable: "args_ok st \<Longrightarrow> runnable (argListMem st) (chains st)"
  by (simp add: args_ok_def runnable_def)


subsection \<open>Piped nodes and their successors\<close>

text \<open>
  C9, as the code has it. The builder never uses \<^verbatim>\<open>com\<close> before it is set, and in
  the array it leaves, every piped node is followed by its successor in the next
  slot, with one exception: the last node written may be piped and have no
  successor, and then the builder ended while still waiting for the command to
  the right of the \<^verbatim>\<open>|\<close> (\<^verbatim>\<open>lastCom\<close> points at that node), so the chain was never
  closed or counted. The pipeline launcher guards against this case itself
  (\<^verbatim>\<open>left->piped && right\<close>, line 489).
\<close>

theorem piped_node_has_next:
  "\<exists>st. buildCommandChains openf input buf lst = Some st \<and>
     (\<forall>i < length (chains st). piped (chains st ! i) \<longrightarrow>
        nextCom (chains st ! i) = Some (Suc i) \<and> Suc i < length (chains st) \<or>
        Suc i = length (chains st) \<and> nextCom (chains st ! i) = None \<and>
          lastCom st = Some i \<and> getFd st = None)"
proof -
  obtain st where st: "buildCommandChains openf input buf lst = Some st" "resting st"
    using buildCommandChains_shape by blast
  define cs where "cs = chains st"
  have "nextCom (cs ! i) = Some (Suc i) \<and> Suc i < length cs \<or>
        Suc i = length cs \<and> nextCom (cs ! i) = None \<and> lastCom st = Some i \<and> getFd st = None"
    if i: "i < length cs" and pi: "piped (cs ! i)" for i
  proof -
    from st(2) obtain p where sh: "shape st p"
      and mode: "if continueLast st \<or> getFd st \<noteq> None then pending st p else settled st p"
      by (auto simp: resting_def pending_def settled_def split: if_splits)
    from sh have len: "length cs = commandCount st"
      and cf: "chains_from cs 0 (chainCount st) p" and tl: "tail_ok cs p"
      by (simp_all add: shape_def cs_def)
    from tl have t: "p \<le> length cs"
      "\<And>j. p \<le> j \<Longrightarrow> Suc j < length cs \<Longrightarrow> nextCom (cs ! j) = Some (Suc j)"
      "p < length cs \<Longrightarrow> nextCom (last cs) = None"
      by (simp_all add: tail_ok_def)
    show ?thesis
    proof (cases "i < p")
      case True
      with closed_node_links [OF cf, of i] pi t(1) show ?thesis by auto
    next
      case False
      then have pi': "p \<le> i" by simp
      show ?thesis
      proof (cases "Suc i < length cs")
        case True
        with t(2) [OF pi'] show ?thesis by simp
      next
        case False
        with i have last: "Suc i = length cs" by simp
        then have "cs \<noteq> []" "length cs - 1 = i" by auto
        then have lc: "last cs = cs ! i"
          by (simp add: last_conv_nth)
        from pi' i have "p < length cs" by simp
        then have none: "nextCom (cs ! i) = None"
          using t(3) lc by simp
        from pi lc have "piped (last cs)" by simp
        with mode have sd: "settled st p" and fd: "getFd st = None"
          by (cases "getFd st"; auto simp: pending_def cs_def split: if_splits)+
        from sd \<open>p < length cs\<close> len obtain l where "lastCom st = Some l" "Suc l = commandCount st"
          by (cases "lastCom st") (auto simp: settled_def)
        with last len have "lastCom st = Some i" by simp
        with last none fd show ?thesis by simp
      qed
    qed
  qed
  with st(1) show ?thesis
    unfolding cs_def by blast
qed

theorem piped_node_has_next_witness:
  "\<exists>st. buildCommandChains (\<lambda>_ _ _. 3) ''a | b\<newline>'' (\<lambda>_. NUL) (\<lambda>_. None) = Some st \<and>
        piped (chains st ! 0) \<and> nextCom (chains st ! 0) = Some 1 \<and> length (chains st) = 2"
proof -
  obtain st where st: "buildCommandChains (\<lambda>_ _ _. 3) ''a | b\<newline>'' (\<lambda>_. NUL) (\<lambda>_. None) = Some st"
    and nx: "\<forall>i < length (chains st). piped (chains st ! i) \<longrightarrow>
        nextCom (chains st ! i) = Some (Suc i) \<and> Suc i < length (chains st) \<or>
        Suc i = length (chains st) \<and> nextCom (chains st ! i) = None \<and>
          lastCom st = Some i \<and> getFd st = None"
    using piped_node_has_next [of "\<lambda>_ _ _. 3" "''a | b\<newline>''" "\<lambda>_. NUL" "\<lambda>_. None"] by blast
  have "map_option (\<lambda>st. (length (chains st), piped (chains st ! 0)))
          (buildCommandChains (\<lambda>_ _ _. 3) ''a | b\<newline>'' (\<lambda>_. NUL) (\<lambda>_. None)) = Some (2, True)"
    by code_simp
  with st have two: "length (chains st) = 2" "piped (chains st ! 0)" by simp_all
  with nx [rule_format, of 0] have "nextCom (chains st ! 0) = Some 1" by simp
  with st two show ?thesis by simp
qed

text \<open>
  C9 as stated fails: on a line that ends with \<^verbatim>\<open>|\<close> the last node is piped and
  has no successor.
\<close>

theorem trailing_pipe_counterexample:
  "map_option (\<lambda>st. map (\<lambda>n. (piped n, nextCom n)) (chains st))
     (buildCommandChains (\<lambda>n f fl. 3) ''a |\<newline>'' (\<lambda>_. NUL) (\<lambda>_. None))
     = Some [(True, None)]"
  by code_simp


subsection \<open>Counting the nodes traversed\<close>

text \<open>
  C3, as the code has it. For every line, every file system and every behaviour
  of the processes, the builder returns, and the chains it counted fill the
  first \<open>p\<close> slots of the array of commands, one chain after the other. Running
  them neither faults nor fails to return: either the interpreter exits (the
  \<^verbatim>\<open>exit\<close> built-in, a failed \<^verbatim>\<open>fork\<close>), or the counts reported by the chain
  executor add up to exactly \<open>p\<close>, the number of nodes in the chains that the
  builder closed. That number is the number of all nodes built exactly when the
  builder ended with no chain pending, that is neither waiting for the right
  operand of \<^verbatim>\<open>&&\<close>, \<^verbatim>\<open>||\<close> or \<^verbatim>\<open>|\<close>, nor for a file name, nor for the
  continuation after \<^verbatim>\<open>&\<close>; otherwise the nodes of the pending chain are built
  but never traversed.
\<close>

theorem traversed_count_is_closed_nodes:
  "\<exists>st p. buildCommandChains openf input buf lst = Some st \<and>
     chains_from (chains st) 0 (chainCount st) p \<and>
     p \<le> commandCount st \<and>
     (p = commandCount st \<longleftrightarrow>
        lastCom st = None \<and> getFd st = None \<and> \<not> continueLast st) \<and>
     (\<exists>r tr. run_chains w (argBuffer st) (argListMem st) (chains st) (chainCount st) 0 []
                = Some (r, tr) \<and> r \<noteq> Fault \<and>
        (\<forall>n. r = Returns n \<longrightarrow> n = p))"
proof -
  obtain st where st: "buildCommandChains openf input buf lst = Some st" "args_ok st" "resting st"
    using buildCommandChains_shape by blast
  from st(3) obtain p where sh: "shape st p"
    and mode: "if continueLast st \<or> getFd st \<noteq> None then pending st p else settled st p"
    by (auto simp: resting_def pending_def settled_def split: if_splits)
  from sh have len: "length (chains st) = commandCount st"
    and cf: "chains_from (chains st) 0 (chainCount st) p" and "tail_ok (chains st) p"
    by (simp_all add: shape_def)
  then have le: "p \<le> commandCount st" by (simp add: tail_ok_def)
  have eq: "p = commandCount st \<longleftrightarrow> lastCom st = None \<and> getFd st = None \<and> \<not> continueLast st"
  proof (cases "continueLast st \<or> getFd st \<noteq> None")
    case True
    with mode have "p < commandCount st" by (simp add: pending_def)
    with True show ?thesis by auto
  next
    case False
    then have off: "\<not> continueLast st" "getFd st = None"
      by (cases "getFd st"; simp)+
    with mode have "settled st p" by simp
    with off show ?thesis
      by (cases "lastCom st") (simp_all add: settled_def)
  qed
  obtain r tr where run:
    "run_chains w (argBuffer st) (argListMem st) (chains st) (chainCount st) 0 [] = Some (r, tr)"
    "r \<noteq> Fault" "\<forall>n. r = Returns n \<longrightarrow> n = p"
    using run_chains_counts [OF cf args_ok_runnable [OF st(2)]] by blast
  from st(1) cf le eq run show ?thesis by blast
qed

theorem traversed_count_is_closed_nodes_witness:
  "\<exists>st tr. buildCommandChains (\<lambda>_ _ _. 3) ''a | b && c; d\<newline>'' (\<lambda>_. NUL) (\<lambda>_. None) = Some st \<and>
     chains_from (chains st) 0 (chainCount st) 4 \<and>
     run_chains \<lparr>wait_status = (\<lambda>i. if i = 0 then 256 else 0), fork_ok = (\<lambda>_ _. True),
                 stack_garbage = (\<lambda>_. 0)\<rparr>
       (argBuffer st) (argListMem st) (chains st) (chainCount st) 0 [] = Some (Returns 4, tr) \<and>
     commandCount st = 4 \<and> lastCom st = None \<and> getFd st = None \<and> \<not> continueLast st"
proof -
  let ?w = "\<lparr>wait_status = (\<lambda>i. if i = (0::nat) then 256 else (0::int)),
             fork_ok = (\<lambda>_ _. True), stack_garbage = (\<lambda>_. 0)\<rparr>"
  obtain st p r tr where st:
    "buildCommandChains (\<lambda>_ _ _. 3) ''a | b && c; d\<newline>'' (\<lambda>_. NUL) (\<lambda>_. None) = Some st"
    and cf: "chains_from (chains st) 0 (chainCount st) p"
    and eq: "p = commandCount st \<longleftrightarrow>
               lastCom st = None \<and> getFd st = None \<and> \<not> continueLast st"
    and run: "run_chains ?w (argBuffer st) (argListMem st) (chains st) (chainCount st) 0 []
                = Some (r, tr)"
    and cnt: "\<forall>n. r = Returns n \<longrightarrow> n = p"
    using traversed_count_is_closed_nodes
            [of "\<lambda>_ _ _. 3" "''a | b && c; d\<newline>''" "\<lambda>_. NUL" "\<lambda>_. None" ?w]
    by blast
  have "map_option
          (\<lambda>st. (map_option fst
                   (run_chains ?w (argBuffer st) (argListMem st) (chains st) (chainCount st) 0 []),
                 commandCount st))
          (buildCommandChains (\<lambda>_ _ _. 3) ''a | b && c; d\<newline>'' (\<lambda>_. NUL) (\<lambda>_. None))
        = Some (Some (Returns 4), 4)"
    by code_simp
  with st run have r: "r = Returns 4" "commandCount st = 4" by simp_all
  with cnt have "p = 4" by simp
  with r cf eq st run show ?thesis by auto
qed

text \<open>
  C3 as stated fails: on \<^verbatim>\<open>a &&\<close> one node is built, no chain is counted, and
  nothing is traversed.
\<close>

theorem trailing_operator_counterexample:
  "map_option
     (\<lambda>st. (commandCount st, chainCount st,
             map_option fst
               (run_chains \<lparr>wait_status = (\<lambda>_. 0), fork_ok = (\<lambda>_ _. True),
                            stack_garbage = (\<lambda>_. 0)\<rparr>
                  (argBuffer st) (argListMem st) (chains st) (chainCount st) 0 [])))
     (buildCommandChains (\<lambda>_ _ _. 3) ''a &&\<newline>'' (\<lambda>_. NUL) (\<lambda>_. None))
   = Some (1, 0, Some (Returns 0))"
  by code_simp

subsection \<open>The status of a pipeline\<close>

text \<open>
  Decoding a status word twice loses it: the first \<^verbatim>\<open>WEXITSTATUS\<close> leaves a number
  below 256, and the second one reads bits 8 to 15 of that number. So the parent
  of a pipe returns the exit status of its left child alone.
\<close>

lemma WEXITSTATUS_W_EXITCODE: "WEXITSTATUS (W_EXITCODE n) = n mod 256"
  by (simp add: WEXITSTATUS_def W_EXITCODE_def)

lemma WEXITSTATUS_range: "0 \<le> WEXITSTATUS s \<and> WEXITSTATUS s \<le> 255"
  by (simp add: WEXITSTATUS_def)

lemma WEXITSTATUS_small:
  assumes "0 \<le> x" and "x < 256"
  shows "WEXITSTATUS x = 0"
  using assms by (simp add: WEXITSTATUS_def)

lemma pipe_status_left_only: "pipe_status leftCode rightCode = leftCode mod 256"
proof -
  have "WEXITSTATUS (WEXITSTATUS (W_EXITCODE rightCode)) = 0"
    by (rule WEXITSTATUS_small) (simp_all add: WEXITSTATUS_W_EXITCODE)
  then show ?thesis
    by (simp add: pipe_status_def Let_def WEXITSTATUS_W_EXITCODE)
qed

text \<open>
  C1. On \<^verbatim>\<open>true | false\<close>, where the first stage exits with 0 and the second with 1
  (status words 0 and 256), both stages are launched and the pipeline launcher
  returns 0, while the sum of the two exit statuses is 1.
\<close>

theorem pipeline_status_evaluated:
  "map_option
     (\<lambda>st. executePipedCommands
              \<lparr>wait_status = (\<lambda>i. if i = 1 then 256 else 0), fork_ok = (\<lambda>_ _. True),
               stack_garbage = (\<lambda>_. 0)\<rparr>
              (argBuffer st) (argListMem st) (chains st) 0 (nextCom (chains st ! 0)))
     (buildCommandChains (\<lambda>_ _ _. 3) ''true | false\<newline>'' (\<lambda>_. NUL) (\<lambda>_. None))
     = Some (Some (Returns 0, [0, 1])) \<and>
   WEXITSTATUS 0 + WEXITSTATUS 256 = 1"
  by code_simp

subsection \<open>Stopping on failure\<close>

text \<open>
  C2. On \<^verbatim>\<open>true | false && echo x\<close> with the same exit statuses, the node \<^verbatim>\<open>false\<close>
  carries \<^verbatim>\<open>stopOnFailure\<close> from \<^verbatim>\<open>&&\<close> and exits with 1, yet node 2, \<^verbatim>\<open>echo x\<close>, is
  launched: the status tested is the pipeline's, which is that of \<^verbatim>\<open>true\<close>. On
  \<^verbatim>\<open>false && echo skip\<close>, where \<^verbatim>\<open>false\<close> exits with 1, \<^verbatim>\<open>echo skip\<close> is not
  launched and both nodes are counted, but the combined status is the sum of 1
  and whatever \<^verbatim>\<open>allStatus\<close> held on entry: with \<open>-1\<close> there, it is 0.
\<close>

theorem stop_on_failure_evaluated:
  "map_option
     (\<lambda>st. (map stopOnFailure (chains st),
             executeCommandChain
               \<lparr>wait_status = (\<lambda>i. if i = 1 then 256 else 0), fork_ok = (\<lambda>_ _. True),
                stack_garbage = (\<lambda>_. 0)\<rparr>
               (argBuffer st) (argListMem st) (chains st) 0))
     (buildCommandChains (\<lambda>_ _ _. 3) ''true | false && echo x\<newline>'' (\<lambda>_. NUL) (\<lambda>_. None))
     = Some ([True, True, False], Some (Returns (0, 3), [0, 1, 2])) \<and>
   map_option
     (\<lambda>st. executeCommandChain
              \<lparr>wait_status = (\<lambda>i. if i = 0 then 256 else 0), fork_ok = (\<lambda>_ _. True),
               stack_garbage = (\<lambda>_. - 1)\<rparr>
              (argBuffer st) (argListMem st) (chains st) 0)
     (buildCommandChains (\<lambda>_ _ _. 3) ''false && echo skip\<newline>'' (\<lambda>_. NUL) (\<lambda>_. None))
     = Some (Some (Returns (0, 2), [0]))"
  by code_simp

end
